theory Spec2Isabelle
  imports Complex_Main "HOL-Library.Sublist"
begin

section \<open>Characters and strings of the handler\<close>

text \<open>
  The handler \<^verbatim>\<open>src/lambda/nl2sql_handler.py\<close> works on Python \<^verbatim>\<open>str\<close> values. A character
  is modelled by its code point and a string by the list of its code points. \<open>ustr\<close>
  writes the string of an ASCII literal, \<open>ch\<close> one character of it.
\<close>

type_synonym pystr = "int list"

abbreviation (input) ch :: "char \<Rightarrow> int" where
  "ch c \<equiv> of_char c"

abbreviation (input) ustr :: "string \<Rightarrow> pystr" where
  "ustr s \<equiv> map of_char s"

text \<open>The code points for which \<^verbatim>\<open>str.isspace\<close> holds. \<^verbatim>\<open>str.strip\<close> without an argument and
  \<^verbatim>\<open>\s\<close> of the module \<^verbatim>\<open>re\<close> both go by it.\<close>

definition white_space :: "int list" where
  "white_space = [9, 10, 11, 12, 13, 28, 29, 30, 31, 32, 133, 160, 5760, 8192, 8193, 8194, 8195, 8196, 8197, 8198, 8199, 8200, 8201, 8202, 8232, 8233, 8239, 8287, 12288]"

definition is_space :: "int \<Rightarrow> bool" where
  "is_space c = (c \<in> set white_space)"

text \<open>The code points \<^verbatim>\<open>\w\<close> matches in a \<^verbatim>\<open>str\<close> pattern, which decide \<^verbatim>\<open>\b\<close>: the underscore and
  the alphanumeric characters of the Unicode database. Below 128 they are written as
  conditions; from 128 on they are the ranges of the database of Python 3.11 (Unicode
  14.0), in ascending order and in blocks of 24, and \<open>is_word\<close> looks a character up in
  the block that reaches it.\<close>

fun in_ranges :: "int \<Rightarrow> (int \<times> int) list \<Rightarrow> bool" where
  "in_ranges c [] = False"
| "in_ranges c ((lo, hi) # rs) =
     (if c < lo then False else if c \<le> hi then True else in_ranges c rs)"

definition word_block_0 :: "(int \<times> int) list" where
  "word_block_0 = [
    (170, 170), (178, 179), (181, 181), (185, 186), (188, 190), (192, 214), (216, 246),
    (248, 705), (710, 721), (736, 740), (748, 748), (750, 750), (880, 884), (886, 887),
    (890, 893), (895, 895), (902, 902), (904, 906), (908, 908), (910, 929), (931, 1013),
    (1015, 1153), (1162, 1327), (1329, 1366)]"

definition word_block_1 :: "(int \<times> int) list" where
  "word_block_1 = [
    (1369, 1369), (1376, 1416), (1488, 1514), (1519, 1522), (1568, 1610), (1632, 1641),
    (1646, 1647), (1649, 1747), (1749, 1749), (1765, 1766), (1774, 1788), (1791, 1791),
    (1808, 1808), (1810, 1839), (1869, 1957), (1969, 1969), (1984, 2026), (2036, 2037),
    (2042, 2042), (2048, 2069), (2074, 2074), (2084, 2084), (2088, 2088), (2112, 2136)]"

definition word_block_2 :: "(int \<times> int) list" where
  "word_block_2 = [
    (2144, 2154), (2160, 2183), (2185, 2190), (2208, 2249), (2308, 2361), (2365, 2365),
    (2384, 2384), (2392, 2401), (2406, 2415), (2417, 2432), (2437, 2444), (2447, 2448),
    (2451, 2472), (2474, 2480), (2482, 2482), (2486, 2489), (2493, 2493), (2510, 2510),
    (2524, 2525), (2527, 2529), (2534, 2545), (2548, 2553), (2556, 2556), (2565, 2570)]"

definition word_block_3 :: "(int \<times> int) list" where
  "word_block_3 = [
    (2575, 2576), (2579, 2600), (2602, 2608), (2610, 2611), (2613, 2614), (2616, 2617),
    (2649, 2652), (2654, 2654), (2662, 2671), (2674, 2676), (2693, 2701), (2703, 2705),
    (2707, 2728), (2730, 2736), (2738, 2739), (2741, 2745), (2749, 2749), (2768, 2768),
    (2784, 2785), (2790, 2799), (2809, 2809), (2821, 2828), (2831, 2832), (2835, 2856)]"

definition word_block_4 :: "(int \<times> int) list" where
  "word_block_4 = [
    (2858, 2864), (2866, 2867), (2869, 2873), (2877, 2877), (2908, 2909), (2911, 2913),
    (2918, 2927), (2929, 2935), (2947, 2947), (2949, 2954), (2958, 2960), (2962, 2965),
    (2969, 2970), (2972, 2972), (2974, 2975), (2979, 2980), (2984, 2986), (2990, 3001),
    (3024, 3024), (3046, 3058), (3077, 3084), (3086, 3088), (3090, 3112), (3114, 3129)]"

definition word_block_5 :: "(int \<times> int) list" where
  "word_block_5 = [
    (3133, 3133), (3160, 3162), (3165, 3165), (3168, 3169), (3174, 3183), (3192, 3198),
    (3200, 3200), (3205, 3212), (3214, 3216), (3218, 3240), (3242, 3251), (3253, 3257),
    (3261, 3261), (3293, 3294), (3296, 3297), (3302, 3311), (3313, 3314), (3332, 3340),
    (3342, 3344), (3346, 3386), (3389, 3389), (3406, 3406), (3412, 3414), (3416, 3425)]"

definition word_block_6 :: "(int \<times> int) list" where
  "word_block_6 = [
    (3430, 3448), (3450, 3455), (3461, 3478), (3482, 3505), (3507, 3515), (3517, 3517),
    (3520, 3526), (3558, 3567), (3585, 3632), (3634, 3635), (3648, 3654), (3664, 3673),
    (3713, 3714), (3716, 3716), (3718, 3722), (3724, 3747), (3749, 3749), (3751, 3760),
    (3762, 3763), (3773, 3773), (3776, 3780), (3782, 3782), (3792, 3801), (3804, 3807)]"

definition word_block_7 :: "(int \<times> int) list" where
  "word_block_7 = [
    (3840, 3840), (3872, 3891), (3904, 3911), (3913, 3948), (3976, 3980), (4096, 4138),
    (4159, 4169), (4176, 4181), (4186, 4189), (4193, 4193), (4197, 4198), (4206, 4208),
    (4213, 4225), (4238, 4238), (4240, 4249), (4256, 4293), (4295, 4295), (4301, 4301),
    (4304, 4346), (4348, 4680), (4682, 4685), (4688, 4694), (4696, 4696), (4698, 4701)]"

definition word_block_8 :: "(int \<times> int) list" where
  "word_block_8 = [
    (4704, 4744), (4746, 4749), (4752, 4784), (4786, 4789), (4792, 4798), (4800, 4800),
    (4802, 4805), (4808, 4822), (4824, 4880), (4882, 4885), (4888, 4954), (4969, 4988),
    (4992, 5007), (5024, 5109), (5112, 5117), (5121, 5740), (5743, 5759), (5761, 5786),
    (5792, 5866), (5870, 5880), (5888, 5905), (5919, 5937), (5952, 5969), (5984, 5996)]"

definition word_block_9 :: "(int \<times> int) list" where
  "word_block_9 = [
    (5998, 6000), (6016, 6067), (6103, 6103), (6108, 6108), (6112, 6121), (6128, 6137),
    (6160, 6169), (6176, 6264), (6272, 6276), (6279, 6312), (6314, 6314), (6320, 6389),
    (6400, 6430), (6470, 6509), (6512, 6516), (6528, 6571), (6576, 6601), (6608, 6618),
    (6656, 6678), (6688, 6740), (6784, 6793), (6800, 6809), (6823, 6823), (6917, 6963)]"

definition word_block_10 :: "(int \<times> int) list" where
  "word_block_10 = [
    (6981, 6988), (6992, 7001), (7043, 7072), (7086, 7141), (7168, 7203), (7232, 7241),
    (7245, 7293), (7296, 7304), (7312, 7354), (7357, 7359), (7401, 7404), (7406, 7411),
    (7413, 7414), (7418, 7418), (7424, 7615), (7680, 7957), (7960, 7965), (7968, 8005),
    (8008, 8013), (8016, 8023), (8025, 8025), (8027, 8027), (8029, 8029), (8031, 8061)]"

definition word_block_11 :: "(int \<times> int) list" where
  "word_block_11 = [
    (8064, 8116), (8118, 8124), (8126, 8126), (8130, 8132), (8134, 8140), (8144, 8147),
    (8150, 8155), (8160, 8172), (8178, 8180), (8182, 8188), (8304, 8305), (8308, 8313),
    (8319, 8329), (8336, 8348), (8450, 8450), (8455, 8455), (8458, 8467), (8469, 8469),
    (8473, 8477), (8484, 8484), (8486, 8486), (8488, 8488), (8490, 8493), (8495, 8505)]"

definition word_block_12 :: "(int \<times> int) list" where
  "word_block_12 = [
    (8508, 8511), (8517, 8521), (8526, 8526), (8528, 8585), (9312, 9371), (9450, 9471),
    (10102, 10131), (11264, 11492), (11499, 11502), (11506, 11507), (11517, 11517),
    (11520, 11557), (11559, 11559), (11565, 11565), (11568, 11623), (11631, 11631),
    (11648, 11670), (11680, 11686), (11688, 11694), (11696, 11702), (11704, 11710),
    (11712, 11718), (11720, 11726), (11728, 11734)]"

definition word_block_13 :: "(int \<times> int) list" where
  "word_block_13 = [
    (11736, 11742), (11823, 11823), (12293, 12295), (12321, 12329), (12337, 12341),
    (12344, 12348), (12353, 12438), (12445, 12447), (12449, 12538), (12540, 12543),
    (12549, 12591), (12593, 12686), (12690, 12693), (12704, 12735), (12784, 12799),
    (12832, 12841), (12872, 12879), (12881, 12895), (12928, 12937), (12977, 12991),
    (13312, 19903), (19968, 42124), (42192, 42237), (42240, 42508)]"

definition word_block_14 :: "(int \<times> int) list" where
  "word_block_14 = [
    (42512, 42539), (42560, 42606), (42623, 42653), (42656, 42735), (42775, 42783),
    (42786, 42888), (42891, 42954), (42960, 42961), (42963, 42963), (42965, 42969),
    (42994, 43009), (43011, 43013), (43015, 43018), (43020, 43042), (43056, 43061),
    (43072, 43123), (43138, 43187), (43216, 43225), (43250, 43255), (43259, 43259),
    (43261, 43262), (43264, 43301), (43312, 43334), (43360, 43388)]"

definition word_block_15 :: "(int \<times> int) list" where
  "word_block_15 = [
    (43396, 43442), (43471, 43481), (43488, 43492), (43494, 43518), (43520, 43560),
    (43584, 43586), (43588, 43595), (43600, 43609), (43616, 43638), (43642, 43642),
    (43646, 43695), (43697, 43697), (43701, 43702), (43705, 43709), (43712, 43712),
    (43714, 43714), (43739, 43741), (43744, 43754), (43762, 43764), (43777, 43782),
    (43785, 43790), (43793, 43798), (43808, 43814), (43816, 43822)]"

definition word_block_16 :: "(int \<times> int) list" where
  "word_block_16 = [
    (43824, 43866), (43868, 43881), (43888, 44002), (44016, 44025), (44032, 55203),
    (55216, 55238), (55243, 55291), (63744, 64109), (64112, 64217), (64256, 64262),
    (64275, 64279), (64285, 64285), (64287, 64296), (64298, 64310), (64312, 64316),
    (64318, 64318), (64320, 64321), (64323, 64324), (64326, 64433), (64467, 64829),
    (64848, 64911), (64914, 64967), (65008, 65019), (65136, 65140)]"

definition word_block_17 :: "(int \<times> int) list" where
  "word_block_17 = [
    (65142, 65276), (65296, 65305), (65313, 65338), (65345, 65370), (65382, 65470),
    (65474, 65479), (65482, 65487), (65490, 65495), (65498, 65500), (65536, 65547),
    (65549, 65574), (65576, 65594), (65596, 65597), (65599, 65613), (65616, 65629),
    (65664, 65786), (65799, 65843), (65856, 65912), (65930, 65931), (66176, 66204),
    (66208, 66256), (66273, 66299), (66304, 66339), (66349, 66378)]"

definition word_block_18 :: "(int \<times> int) list" where
  "word_block_18 = [
    (66384, 66421), (66432, 66461), (66464, 66499), (66504, 66511), (66513, 66517),
    (66560, 66717), (66720, 66729), (66736, 66771), (66776, 66811), (66816, 66855),
    (66864, 66915), (66928, 66938), (66940, 66954), (66956, 66962), (66964, 66965),
    (66967, 66977), (66979, 66993), (66995, 67001), (67003, 67004), (67072, 67382),
    (67392, 67413), (67424, 67431), (67456, 67461), (67463, 67504)]"

definition word_block_19 :: "(int \<times> int) list" where
  "word_block_19 = [
    (67506, 67514), (67584, 67589), (67592, 67592), (67594, 67637), (67639, 67640),
    (67644, 67644), (67647, 67669), (67672, 67702), (67705, 67742), (67751, 67759),
    (67808, 67826), (67828, 67829), (67835, 67867), (67872, 67897), (67968, 68023),
    (68028, 68047), (68050, 68096), (68112, 68115), (68117, 68119), (68121, 68149),
    (68160, 68168), (68192, 68222), (68224, 68255), (68288, 68295)]"

definition word_block_20 :: "(int \<times> int) list" where
  "word_block_20 = [
    (68297, 68324), (68331, 68335), (68352, 68405), (68416, 68437), (68440, 68466),
    (68472, 68497), (68521, 68527), (68608, 68680), (68736, 68786), (68800, 68850),
    (68858, 68899), (68912, 68921), (69216, 69246), (69248, 69289), (69296, 69297),
    (69376, 69415), (69424, 69445), (69457, 69460), (69488, 69505), (69552, 69579),
    (69600, 69622), (69635, 69687), (69714, 69743), (69745, 69746)]"

definition word_block_21 :: "(int \<times> int) list" where
  "word_block_21 = [
    (69749, 69749), (69763, 69807), (69840, 69864), (69872, 69881), (69891, 69926),
    (69942, 69951), (69956, 69956), (69959, 69959), (69968, 70002), (70006, 70006),
    (70019, 70066), (70081, 70084), (70096, 70106), (70108, 70108), (70113, 70132),
    (70144, 70161), (70163, 70187), (70272, 70278), (70280, 70280), (70282, 70285),
    (70287, 70301), (70303, 70312), (70320, 70366), (70384, 70393)]"

definition word_block_22 :: "(int \<times> int) list" where
  "word_block_22 = [
    (70405, 70412), (70415, 70416), (70419, 70440), (70442, 70448), (70450, 70451),
    (70453, 70457), (70461, 70461), (70480, 70480), (70493, 70497), (70656, 70708),
    (70727, 70730), (70736, 70745), (70751, 70753), (70784, 70831), (70852, 70853),
    (70855, 70855), (70864, 70873), (71040, 71086), (71128, 71131), (71168, 71215),
    (71236, 71236), (71248, 71257), (71296, 71338), (71352, 71352)]"

definition word_block_23 :: "(int \<times> int) list" where
  "word_block_23 = [
    (71360, 71369), (71424, 71450), (71472, 71483), (71488, 71494), (71680, 71723),
    (71840, 71922), (71935, 71942), (71945, 71945), (71948, 71955), (71957, 71958),
    (71960, 71983), (71999, 71999), (72001, 72001), (72016, 72025), (72096, 72103),
    (72106, 72144), (72161, 72161), (72163, 72163), (72192, 72192), (72203, 72242),
    (72250, 72250), (72272, 72272), (72284, 72329), (72349, 72349)]"

definition word_block_24 :: "(int \<times> int) list" where
  "word_block_24 = [
    (72368, 72440), (72704, 72712), (72714, 72750), (72768, 72768), (72784, 72812),
    (72818, 72847), (72960, 72966), (72968, 72969), (72971, 73008), (73030, 73030),
    (73040, 73049), (73056, 73061), (73063, 73064), (73066, 73097), (73112, 73112),
    (73120, 73129), (73440, 73458), (73648, 73648), (73664, 73684), (73728, 74649),
    (74752, 74862), (74880, 75075), (77712, 77808), (77824, 78894)]"

definition word_block_25 :: "(int \<times> int) list" where
  "word_block_25 = [
    (82944, 83526), (92160, 92728), (92736, 92766), (92768, 92777), (92784, 92862),
    (92864, 92873), (92880, 92909), (92928, 92975), (92992, 92995), (93008, 93017),
    (93019, 93025), (93027, 93047), (93053, 93071), (93760, 93846), (93952, 94026),
    (94032, 94032), (94099, 94111), (94176, 94177), (94179, 94179), (94208, 100343),
    (100352, 101589), (101632, 101640), (110576, 110579), (110581, 110587)]"

definition word_block_26 :: "(int \<times> int) list" where
  "word_block_26 = [
    (110589, 110590), (110592, 110882), (110928, 110930), (110948, 110951), (110960, 111355),
    (113664, 113770), (113776, 113788), (113792, 113800), (113808, 113817), (119520, 119539),
    (119648, 119672), (119808, 119892), (119894, 119964), (119966, 119967), (119970, 119970),
    (119973, 119974), (119977, 119980), (119982, 119993), (119995, 119995), (119997, 120003),
    (120005, 120069), (120071, 120074), (120077, 120084), (120086, 120092)]"

definition word_block_27 :: "(int \<times> int) list" where
  "word_block_27 = [
    (120094, 120121), (120123, 120126), (120128, 120132), (120134, 120134), (120138, 120144),
    (120146, 120485), (120488, 120512), (120514, 120538), (120540, 120570), (120572, 120596),
    (120598, 120628), (120630, 120654), (120656, 120686), (120688, 120712), (120714, 120744),
    (120746, 120770), (120772, 120779), (120782, 120831), (122624, 122654), (123136, 123180),
    (123191, 123197), (123200, 123209), (123214, 123214), (123536, 123565)]"

definition word_block_28 :: "(int \<times> int) list" where
  "word_block_28 = [
    (123584, 123627), (123632, 123641), (124896, 124902), (124904, 124907), (124909, 124910),
    (124912, 124926), (124928, 125124), (125127, 125135), (125184, 125251), (125259, 125259),
    (125264, 125273), (126065, 126123), (126125, 126127), (126129, 126132), (126209, 126253),
    (126255, 126269), (126464, 126467), (126469, 126495), (126497, 126498), (126500, 126500),
    (126503, 126503), (126505, 126514), (126516, 126519), (126521, 126521)]"

definition word_block_29 :: "(int \<times> int) list" where
  "word_block_29 = [
    (126523, 126523), (126530, 126530), (126535, 126535), (126537, 126537), (126539, 126539),
    (126541, 126543), (126545, 126546), (126548, 126548), (126551, 126551), (126553, 126553),
    (126555, 126555), (126557, 126557), (126559, 126559), (126561, 126562), (126564, 126564),
    (126567, 126570), (126572, 126578), (126580, 126583), (126585, 126588), (126590, 126590),
    (126592, 126601), (126603, 126619), (126625, 126627), (126629, 126633)]"

definition word_block_30 :: "(int \<times> int) list" where
  "word_block_30 = [
    (126635, 126651), (127232, 127244), (130032, 130041), (131072, 173791), (173824, 177976),
    (177984, 178205), (178208, 183969), (183984, 191456), (194560, 195101), (196608, 201546)]"

definition is_word :: "int \<Rightarrow> bool" where
  "is_word c =
     (if c < 128
      then (48 \<le> c \<and> c \<le> 57) \<or> (65 \<le> c \<and> c \<le> 90) \<or> c = 95 \<or> (97 \<le> c \<and> c \<le> 122)
      else if c \<le> 1366 then in_ranges c word_block_0
      else if c \<le> 2136 then in_ranges c word_block_1
      else if c \<le> 2570 then in_ranges c word_block_2
      else if c \<le> 2856 then in_ranges c word_block_3
      else if c \<le> 3129 then in_ranges c word_block_4
      else if c \<le> 3425 then in_ranges c word_block_5
      else if c \<le> 3807 then in_ranges c word_block_6
      else if c \<le> 4701 then in_ranges c word_block_7
      else if c \<le> 5996 then in_ranges c word_block_8
      else if c \<le> 6963 then in_ranges c word_block_9
      else if c \<le> 8061 then in_ranges c word_block_10
      else if c \<le> 8505 then in_ranges c word_block_11
      else if c \<le> 11734 then in_ranges c word_block_12
      else if c \<le> 42508 then in_ranges c word_block_13
      else if c \<le> 43388 then in_ranges c word_block_14
      else if c \<le> 43822 then in_ranges c word_block_15
      else if c \<le> 65140 then in_ranges c word_block_16
      else if c \<le> 66378 then in_ranges c word_block_17
      else if c \<le> 67504 then in_ranges c word_block_18
      else if c \<le> 68295 then in_ranges c word_block_19
      else if c \<le> 69746 then in_ranges c word_block_20
      else if c \<le> 70393 then in_ranges c word_block_21
      else if c \<le> 71352 then in_ranges c word_block_22
      else if c \<le> 72349 then in_ranges c word_block_23
      else if c \<le> 78894 then in_ranges c word_block_24
      else if c \<le> 110587 then in_ranges c word_block_25
      else if c \<le> 120092 then in_ranges c word_block_26
      else if c \<le> 123565 then in_ranges c word_block_27
      else if c \<le> 126521 then in_ranges c word_block_28
      else if c \<le> 126633 then in_ranges c word_block_29
      else if c \<le> 201546 then in_ranges c word_block_30
      else False)"

text \<open>
  \<^verbatim>\<open>re.IGNORECASE\<close> on a \<^verbatim>\<open>str\<close> pattern. An ASCII letter \<open>p\<close> of the pattern matches the
  characters whose lower case is the lower case of \<open>p\<close>, and the other characters the
  module counts as the same letter: besides the two ASCII cases these are U+0130 and
  U+0131 for \<^verbatim>\<open>i\<close>, U+212A for \<^verbatim>\<open>k\<close> and U+017F for \<^verbatim>\<open>s\<close>. A pattern character without case
  matches itself. (The patterns of the handler hold ASCII characters only.)
\<close>

definition ci_match :: "int \<Rightarrow> int \<Rightarrow> bool" where
  "ci_match p c =
     (let q = (if 65 \<le> p \<and> p \<le> 90 then p + 32 else p) in
      c = q \<or> (97 \<le> q \<and> q \<le> 122 \<and> c = q - 32) \<or>
      (q = ch CHR ''i'' \<and> (c = 304 \<or> c = 305)) \<or>
      (q = ch CHR ''k'' \<and> c = 8490) \<or>
      (q = ch CHR ''s'' \<and> c = 383))"

text \<open>The character set \<^verbatim>\<open>[a-zA-Z0-9_\.]\<close> under \<^verbatim>\<open>re.IGNORECASE\<close>: the ASCII letters and
  digits, underscore, dot, and the four characters above.\<close>

definition table_char :: "int \<Rightarrow> bool" where
  "table_char c =
     ((97 \<le> c \<and> c \<le> 122) \<or> (65 \<le> c \<and> c \<le> 90) \<or> (48 \<le> c \<and> c \<le> 57) \<or>
      c = 95 \<or> c = 46 \<or> c = 304 \<or> c = 305 \<or> c = 383 \<or> c = 8490)"

text \<open>\<^verbatim>\<open>str.lstrip\<close>, \<^verbatim>\<open>str.rstrip\<close> and \<^verbatim>\<open>str.strip\<close>, without an argument (white space) and
  with a set of characters.\<close>

definition lstrip_by :: "(int \<Rightarrow> bool) \<Rightarrow> pystr \<Rightarrow> pystr" where
  "lstrip_by p s = dropWhile p s"

definition rstrip_by :: "(int \<Rightarrow> bool) \<Rightarrow> pystr \<Rightarrow> pystr" where
  "rstrip_by p s = rev (dropWhile p (rev s))"

definition strip_by :: "(int \<Rightarrow> bool) \<Rightarrow> pystr \<Rightarrow> pystr" where
  "strip_by p s = rstrip_by p (lstrip_by p s)"

definition strip :: "pystr \<Rightarrow> pystr" where
  "strip s = strip_by is_space s"

definition rstrip :: "pystr \<Rightarrow> pystr" where
  "rstrip s = rstrip_by is_space s"

definition rstrip_chars :: "pystr \<Rightarrow> pystr \<Rightarrow> pystr" where
  "rstrip_chars cs s = rstrip_by (\<lambda>c. c \<in> set cs) s"

definition strip_chars :: "pystr \<Rightarrow> pystr \<Rightarrow> pystr" where
  "strip_chars cs s = strip_by (\<lambda>c. c \<in> set cs) s"

text \<open>The decimal text of an integer, as an f-pystr prints it.\<close>

definition digit_char :: "nat \<Rightarrow> int" where
  "digit_char d = 48 + int d"

fun nat_str :: "nat \<Rightarrow> pystr" where
  "nat_str n = (if n < 10 then [digit_char n] else nat_str (n div 10) @ [digit_char (n mod 10)])"

definition int_str :: "int \<Rightarrow> pystr" where
  "int_str i = (if i < 0 then ch CHR ''-'' # nat_str (nat (- i)) else nat_str (nat i))"

section \<open>The regular expressions of the handler\<close>

text \<open>
  The constructs the handler's patterns use, all compiled with \<^verbatim>\<open>re.IGNORECASE\<close>: literal
  text, \<^verbatim>\<open>^\<close>, \<^verbatim>\<open>\b\<close>, a greedy \<^verbatim>\<open>*\<close> or \<^verbatim>\<open>+\<close> over one character class, alternation,
  sequence and one capturing group. The matcher stands between two parts of the subject:
  \<open>bef\<close>, the text before the current position, last character first, and \<open>aft\<close>, the
  text from the current position on. \<open>rx_run r bef aft\<close> lists, in the order a backtracking
  matcher tries them, the texts a match of \<open>r\<close> at this position can consume, each with
  the text of the group if the group took part.
\<close>

datatype regex =
    Lit pystr
  | Bol
  | WordB
  | Star "int \<Rightarrow> bool"
  | Plus "int \<Rightarrow> bool"
  | Alt regex regex
  | Seq regex regex
  | Group regex

definition word_hd :: "pystr \<Rightarrow> bool" where
  "word_hd s = (case s of [] \<Rightarrow> False | c # cs \<Rightarrow> is_word c)"

definition boundary :: "pystr \<Rightarrow> pystr \<Rightarrow> bool" where
  "boundary bef aft = (word_hd bef \<noteq> word_hd aft)"

definition lit_at :: "pystr \<Rightarrow> pystr \<Rightarrow> bool" where
  "lit_at w aft = list_all2 ci_match w (take (length w) aft)"

fun rx_run :: "regex \<Rightarrow> pystr \<Rightarrow> pystr \<Rightarrow> (pystr \<times> pystr option) list" where
  "rx_run (Lit w) bef aft = (if lit_at w aft then [(take (length w) aft, None)] else [])"
| "rx_run Bol bef aft = (if bef = [] then [([], None)] else [])"
| "rx_run WordB bef aft = (if boundary bef aft then [([], None)] else [])"
| "rx_run (Star p) bef aft = map (\<lambda>m. (m, None)) (rev (prefixes (takeWhile p aft)))"
| "rx_run (Plus p) bef aft = map (\<lambda>m. (m, None)) (rev (tl (prefixes (takeWhile p aft))))"
| "rx_run (Alt a b) bef aft = rx_run a bef aft @ rx_run b bef aft"
| "rx_run (Seq a b) bef aft =
     concat (map (\<lambda>(m1, g1).
               map (\<lambda>(m2, g2). (m1 @ m2, case g2 of None \<Rightarrow> g1 | Some t \<Rightarrow> Some t))
                   (rx_run b (rev m1 @ bef) (drop (length m1) aft)))
             (rx_run a bef aft))"
| "rx_run (Group a) bef aft = map (\<lambda>(m, g). (m, Some m)) (rx_run a bef aft)"

text \<open>The match a backtracking matcher reports at one position is the first of the list.
  \<^verbatim>\<open>re.match\<close> tries the start of the subject only; \<^verbatim>\<open>re.search\<close> takes the leftmost
  position with a match, the end of the subject included.\<close>

definition match_at :: "regex \<Rightarrow> pystr \<Rightarrow> pystr \<Rightarrow> (pystr \<times> pystr option) option" where
  "match_at r bef aft = (case rx_run r bef aft of [] \<Rightarrow> None | m # ms \<Rightarrow> Some m)"

definition re_match :: "regex \<Rightarrow> pystr \<Rightarrow> (pystr \<times> pystr option) option" where
  "re_match r s = match_at r [] s"

fun search_from :: "regex \<Rightarrow> pystr \<Rightarrow> pystr \<Rightarrow> (pystr \<times> pystr option) option" where
  "search_from r bef aft =
     (case match_at r bef aft of
        Some m \<Rightarrow> Some m
      | None \<Rightarrow> (case aft of [] \<Rightarrow> None | c # cs \<Rightarrow> search_from r (c # bef) cs))"

definition re_search :: "regex \<Rightarrow> pystr \<Rightarrow> (pystr \<times> pystr option) option" where
  "re_search r s = search_from r [] s"

text \<open>\<^verbatim>\<open>re.findall\<close> for a pattern with one group: the text of the group in each match,
  matches taken left to right without overlap. After a match the scan resumes where the
  match ended; the patterns of the handler match no empty text, and the scan is written
  to move on by one character if one did.\<close>

definition group_text :: "pystr option \<Rightarrow> pystr" where
  "group_text g = (case g of None \<Rightarrow> [] | Some t \<Rightarrow> t)"

function findall_from :: "regex \<Rightarrow> pystr \<Rightarrow> pystr \<Rightarrow> pystr list" where
  "findall_from r bef aft =
     (case match_at r bef aft of
        None \<Rightarrow> (case aft of [] \<Rightarrow> [] | c # cs \<Rightarrow> findall_from r (c # bef) cs)
      | Some (m, g) \<Rightarrow>
          (case aft of
             [] \<Rightarrow> [group_text g]
           | c # cs \<Rightarrow>
               if m = [] then group_text g # findall_from r (c # bef) cs
               else group_text g # findall_from r (rev m @ bef) (drop (length m) aft)))"
  by pat_completeness auto
termination
  by (relation "measure (\<lambda>(r, bef, aft). length aft)") auto

definition re_findall :: "regex \<Rightarrow> pystr \<Rightarrow> pystr list" where
  "re_findall r s = findall_from r [] s"

text \<open>The four patterns of \<^verbatim>\<open>sanitize_sql\<close>:
  \<^verbatim>\<open>^\s*select\b\<close>, \<^verbatim>\<open>\blimit\b\<close>, \<^verbatim>\<open>\b(?:from|join)\s+([a-zA-Z0-9_\.]+)\<close> and
  \<^verbatim>\<open>\b(unload|create|drop|delete|update|insert|grant|msck|alter)\b\<close>.\<close>

definition select_re :: regex where
  "select_re = Seq Bol (Seq (Star is_space) (Seq (Lit (ustr ''select'')) WordB))"

definition limit_re :: regex where
  "limit_re = Seq WordB (Seq (Lit (ustr ''limit'')) WordB)"

definition table_re :: regex where
  "table_re = Seq WordB (Seq (Alt (Lit (ustr ''from'')) (Lit (ustr ''join'')))
                 (Seq (Plus is_space) (Group (Plus table_char))))"

definition banned_words :: "pystr list" where
  "banned_words = map ustr [''unload'', ''create'', ''drop'', ''delete'', ''update'', ''insert'',
                              ''grant'', ''msck'', ''alter'']"

definition banned_alts :: regex where
  "banned_alts =
     Alt (Lit (ustr ''unload'')) (Alt (Lit (ustr ''create'')) (Alt (Lit (ustr ''drop'')) (Alt (Lit (ustr ''delete''))
     (Alt (Lit (ustr ''update'')) (Alt (Lit (ustr ''insert'')) (Alt (Lit (ustr ''grant'')) (Alt (Lit (ustr ''msck''))
     (Lit (ustr ''alter'')))))))))"

definition banned_re :: regex where
  "banned_re = Seq WordB (Seq (Group banned_alts) WordB)"

section \<open>The guardrail: \<^verbatim>\<open>sanitize_sql\<close>\<close>

text \<open>
  Each constructor stands for one \<^verbatim>\<open>raise ValueError(...)\<close> of \<^verbatim>\<open>sanitize_sql\<close> and carries
  what the message interpolates:
  \<^item> \<open>NotSelect\<close>: \<^verbatim>\<open>"Only SELECT queries are allowed."\<close>
  \<^item> \<open>MultipleStatements\<close>: \<^verbatim>\<open>"Multiple statements are not allowed."\<close>
  \<^item> \<open>SchemaNotAllowed A\<close>: \<^verbatim>\<open>f"Query must use schemas in {sorted(ALLOWED_SCHEMAS)}"\<close>, where
    \<open>A\<close> is \<^verbatim>\<open>ALLOWED_SCHEMAS\<close>
  \<^item> \<open>BannedKeyword\<close>: \<^verbatim>\<open>"Only read-only SELECT queries are allowed."\<close>
\<close>

datatype error =
    NotSelect
  | MultipleStatements
  | SchemaNotAllowed "pystr set"
  | BannedKeyword

text \<open>The loop over the captured table tokens (lines 149 to 155).\<close>

definition unquote :: "pystr \<Rightarrow> pystr" where
  "unquote t = strip_chars [ch CHR 0x27] (strip_chars [ch CHR ''`''] (strip_chars [ch CHR 0x22] (strip t)))"

definition schema_of :: "pystr \<Rightarrow> pystr" where
  "schema_of t = takeWhile (\<lambda>c. c \<noteq> ch CHR ''.'') t"

fun check_tables :: "pystr set \<Rightarrow> pystr list \<Rightarrow> error option" where
  "check_tables A [] = None"
| "check_tables A (t # ts) =
     (let t' = unquote t in
      if ch CHR ''.'' \<in> set t' \<and> schema_of t' \<notin> A then Some (SchemaNotAllowed A)
      else check_tables A ts)"

text \<open>Step 2 of the function (lines 143 and 144).\<close>

definition enforce_limit :: "int \<Rightarrow> pystr \<Rightarrow> pystr" where
  "enforce_limit MAX_ROWS sql =
     (if re_search limit_re sql = None
      then rstrip_chars (ustr '';'') (rstrip sql) @ ustr '' LIMIT '' @ int_str MAX_ROWS
      else sql)"

definition sanitize_sql :: "pystr set \<Rightarrow> int \<Rightarrow> pystr \<Rightarrow> error + pystr" where
  "sanitize_sql ALLOWED_SCHEMAS MAX_ROWS sql0 =
     (let sql = strip sql0 in
      if re_match select_re sql = None then Inl NotSelect
      else if ch CHR '';'' \<in> set (rstrip_chars (ustr '';'') (strip sql)) then Inl MultipleStatements
      else
        let sql = enforce_limit MAX_ROWS sql;
            tables = re_findall table_re sql
        in case check_tables ALLOWED_SCHEMAS tables of
             Some e \<Rightarrow> Inl e
           | None \<Rightarrow>
               if re_findall banned_re sql \<noteq> [] then Inl BannedKeyword
               else Inr sql)"


section \<open>The retry loop: \<^verbatim>\<open>invoke_bedrock_with_retry\<close>\<close>

text \<open>
  One pass through the \<^verbatim>\<open>try\<close> block either returns the decoded reply or raises. The
  handler catches \<^verbatim>\<open>ClientError\<close> only and reads its error code (the empty text when the
  reply has none); every other exception leaves the function at once. The outside world
  is given by two sequences: \<open>svc k\<close>, what the \<open>k\<close>-th call of \<^verbatim>\<open>invoke_model\<close> does, and
  \<open>rnd k\<close>, the \<open>k\<close>-th value of the generator \<^verbatim>\<open>random()\<close>, from which
  \<^verbatim>\<open>random.uniform(a, b)\<close> computes \<^verbatim>\<open>a + (b - a) * random()\<close>. The function returns
  its result together with what it did to the world: the calls made, the draws taken and
  the arguments of \<^verbatim>\<open>time.sleep\<close> in order. Times are seconds, as in the code, taken as
  exact numbers.
\<close>

datatype exn = ClientError string | OtherError string

record world =
  calls :: nat
  draws :: nat
  slept :: "real list"

definition throttling :: "string \<Rightarrow> bool" where
  "throttling c = (c = ''ThrottlingException'' \<or> c = ''TooManyRequestsException'')"

definition uniform :: "real \<Rightarrow> real \<Rightarrow> real \<Rightarrow> real" where
  "uniform a b u = a + (b - a) * u"

definition backoff :: "nat \<Rightarrow> real \<Rightarrow> real" where
  "backoff attempt u = min 8 (2 ^ attempt * (1 / 2)) + uniform 0 (3 / 10) u"

function retry_loop ::
  "(nat \<Rightarrow> exn + 'r) \<Rightarrow> (nat \<Rightarrow> real) \<Rightarrow> int \<Rightarrow> nat \<Rightarrow> world \<Rightarrow> (exn + 'r) \<times> world" where
  "retry_loop svc rnd max_attempts attempt w =
     (let w1 = w\<lparr>calls := calls w + 1\<rparr> in
      case svc (calls w) of
        Inr resp \<Rightarrow> (Inr resp, w1)
      | Inl (OtherError x) \<Rightarrow> (Inl (OtherError x), w1)
      | Inl (ClientError c) \<Rightarrow>
          if throttling c \<and> int attempt < max_attempts - 1
          then retry_loop svc rnd max_attempts (attempt + 1)
                 (w1\<lparr>draws := draws w1 + 1,
                     slept := slept w1 @ [backoff attempt (rnd (draws w1))]\<rparr>)
          else (Inl (ClientError c), w1))"
  by pat_completeness auto
termination
  by (relation "measure (\<lambda>(svc, rnd, max_attempts, attempt, w). nat (max_attempts - 1 - int attempt))")
     auto

definition world0 :: world where
  "world0 = \<lparr>calls = 0, draws = 0, slept = []\<rparr>"

definition invoke_bedrock_with_retry ::
  "(nat \<Rightarrow> exn + 'r) \<Rightarrow> (nat \<Rightarrow> real) \<Rightarrow> int \<Rightarrow> (exn + 'r) \<times> world" where
  "invoke_bedrock_with_retry svc rnd max_attempts = retry_loop svc rnd max_attempts 0 world0"

text \<open>The default of the parameter \<^verbatim>\<open>max_attempts\<close>; both callers use it.\<close>

definition default_max_attempts :: int where
  "default_max_attempts = 6"

section \<open>Fetching the result pages: \<^verbatim>\<open>run_athena\<close>\<close>

text \<open>
  A cell is the \<^verbatim>\<open>VarCharValue\<close> of a datum, absent for a null; a row is its list of cells; a
  page is its list of rows. The engine's answer to the requests for results is the first
  page and the pages after it, and a page carries a \<^verbatim>\<open>NextToken\<close> exactly when another page
  follows. The status polls are a sequence of states with their reasons; the wait loop
  has no bound, so it is a partial function.
\<close>

type_synonym cell = "string option"
type_synonym row = "cell list"
type_synonym page = "row list"

datatype run_error =
    RuntimeError string string
  | IndexError
  | KeyError

text \<open>The \<^verbatim>\<open>for\<close> loop over one later page, with its \<^verbatim>\<open>break\<close> (lines 194 to 196).\<close>

fun add_rows :: "int \<Rightarrow> page \<Rightarrow> row list \<Rightarrow> row list" where
  "add_rows MAX_ROWS [] rows = rows"
| "add_rows MAX_ROWS (r # rs) rows =
     (let rows' = rows @ [r] in
      if MAX_ROWS \<le> int (length rows') then rows' else add_rows MAX_ROWS rs rows')"

text \<open>The \<^verbatim>\<open>while\<close> loop over the later pages (lines 192 to 197).\<close>

fun fetch_more :: "int \<Rightarrow> page list \<Rightarrow> row list \<Rightarrow> row list" where
  "fetch_more MAX_ROWS [] rows = rows"
| "fetch_more MAX_ROWS (p # ps) rows =
     (if int (length rows) < MAX_ROWS then fetch_more MAX_ROWS ps (add_rows MAX_ROWS p rows)
      else rows)"

text \<open>Lines 185 to 198: the header row, the rest of the first page, the later pages.\<close>

definition fetch_results :: "int \<Rightarrow> page \<Rightarrow> page list \<Rightarrow> run_error + (string list \<times> row list)" where
  "fetch_results MAX_ROWS first later =
     (case first of
        [] \<Rightarrow> Inl IndexError
      | h # data \<Rightarrow>
          if list_ex (\<lambda>c. c = None) h then Inl KeyError
          else Inr (map the h, fetch_more MAX_ROWS later data))"

partial_function (option) wait_loop :: "(nat \<Rightarrow> string \<times> string) \<Rightarrow> nat \<Rightarrow> (string \<times> string) option" where
  "wait_loop polls k =
     (if fst (polls k) \<in> {''SUCCEEDED'', ''FAILED'', ''CANCELLED''} then Some (polls k)
      else wait_loop polls (k + 1))"

definition run_athena ::
  "int \<Rightarrow> (nat \<Rightarrow> string \<times> string) \<Rightarrow> page \<Rightarrow> page list \<Rightarrow>
     (run_error + (string list \<times> row list)) option" where
  "run_athena MAX_ROWS polls first later =
     (case wait_loop polls 0 of
        None \<Rightarrow> None
      | Some (state, reason) \<Rightarrow>
          if state \<noteq> ''SUCCEEDED'' then Some (Inl (RuntimeError state reason))
          else Some (fetch_results MAX_ROWS first later))"


section \<open>Notions the properties are stated with\<close>

text \<open>A keyword is a non-empty text of the letters \<^verbatim>\<open>a\<close> to \<^verbatim>\<open>z\<close>. It occurs as a whole
  word at a position when the text there matches it as \<^verbatim>\<open>re.IGNORECASE\<close> matches and no word
  character stands directly before or after; \<open>contains_word\<close> tries every position.\<close>

definition ascii_lower :: "int \<Rightarrow> bool" where
  "ascii_lower c = (97 \<le> c \<and> c \<le> 122)"

definition keyword :: "pystr \<Rightarrow> bool" where
  "keyword w = (w \<noteq> [] \<and> list_all ascii_lower w)"

definition word_occurs :: "pystr \<Rightarrow> pystr \<Rightarrow> pystr \<Rightarrow> bool" where
  "word_occurs w bef aft = (lit_at w aft \<and> \<not> word_hd bef \<and> \<not> word_hd (drop (length w) aft))"

definition contains_word :: "pystr \<Rightarrow> pystr \<Rightarrow> bool" where
  "contains_word w s = list_ex (\<lambda>i. word_occurs w (rev (take i s)) (drop i s)) [0..<Suc (length s)]"

definition word_re :: "pystr \<Rightarrow> regex" where
  "word_re w = Seq WordB (Seq (Lit w) WordB)"

text \<open>A candidate begins with the token \<^verbatim>\<open>SELECT\<close> as the first gate reads it: after its
  leading white space stands a text that matches \<^verbatim>\<open>select\<close> under \<^verbatim>\<open>re.IGNORECASE\<close>, as a whole
  word.\<close>

definition begins_with_select :: "pystr \<Rightarrow> bool" where
  "begins_with_select s = word_occurs (ustr ''select'') [] (lstrip_by is_space s)"

text \<open>
  The wording of the specification, "case-insensitive", in the plain sense: a letter of
  the keyword stands in the text in lower or in upper case. The notions above are written
  once more with it, to be compared with what the patterns of the code match.
\<close>

definition plain_ci :: "int \<Rightarrow> int \<Rightarrow> bool" where
  "plain_ci p c = (c = p \<or> (97 \<le> p \<and> p \<le> 122 \<and> c = p - 32))"

definition plain_lit_at :: "pystr \<Rightarrow> pystr \<Rightarrow> bool" where
  "plain_lit_at w aft = list_all2 plain_ci w (take (length w) aft)"

definition plain_word_occurs :: "pystr \<Rightarrow> pystr \<Rightarrow> pystr \<Rightarrow> bool" where
  "plain_word_occurs w bef aft =
     (plain_lit_at w aft \<and> \<not> word_hd bef \<and> \<not> word_hd (drop (length w) aft))"

definition plain_contains_word :: "pystr \<Rightarrow> pystr \<Rightarrow> bool" where
  "plain_contains_word w s =
     list_ex (\<lambda>i. plain_word_occurs w (rev (take i s)) (drop i s)) [0..<Suc (length s)]"

definition plain_begins_with_select :: "pystr \<Rightarrow> bool" where
  "plain_begins_with_select s = plain_word_occurs (ustr ''select'') [] (lstrip_by is_space s)"

text \<open>The four characters beyond ASCII that \<^verbatim>\<open>re.IGNORECASE\<close> takes for an ASCII letter:
  U+0130 and U+0131 for \<^verbatim>\<open>i\<close>, U+017F for \<^verbatim>\<open>s\<close>, U+212A for \<^verbatim>\<open>k\<close>.\<close>

definition special :: "int \<Rightarrow> bool" where
  "special c = (c = 304 \<or> c = 305 \<or> c = 383 \<or> c = 8490)"

text \<open>A text with each of the four written as the ASCII letter it is taken for.\<close>

definition fold_special :: "int \<Rightarrow> int" where
  "fold_special c =
     (if c = 304 \<or> c = 305 then ch CHR ''i''
      else if c = 383 then ch CHR ''s''
      else if c = 8490 then ch CHR ''k''
      else c)"

text \<open>The characters a letter of a keyword can match.\<close>

definition letter :: "int \<Rightarrow> bool" where
  "letter c = ((65 \<le> c \<and> c \<le> 90) \<or> (97 \<le> c \<and> c \<le> 122) \<or> special c)"

text \<open>The wording of the specification for the statement gate, "after stripping at most one
  trailing statement terminator", written out to be compared with what the code strips.\<close>

definition strip_one_terminator :: "pystr \<Rightarrow> pystr" where
  "strip_one_terminator s = (if s \<noteq> [] \<and> last s = ch CHR '';'' then butlast s else s)"

text \<open>The decimal digits.\<close>

definition digit :: "int \<Rightarrow> bool" where
  "digit c = (48 \<le> c \<and> c \<le> 57)"

text \<open>An outcome of one call that the retry loop counts as throttling.\<close>

definition throttled :: "exn + 'r \<Rightarrow> bool" where
  "throttled x = (case x of Inl (ClientError c) \<Rightarrow> throttling c | _ \<Rightarrow> False)"

section \<open>Facts about characters\<close>

lemma white_space_facts:
  "list_all (\<lambda>c. \<not> is_word c \<and> \<not> table_char c \<and> \<not> letter c \<and> c \<noteq> ch CHR '';'') white_space"
  by code_simp

lemma special_facts: "list_all (\<lambda>c. is_word c \<and> \<not> is_space c) [304, 305, 383, 8490]"
  by code_simp

lemma space_not_word: "is_space c \<Longrightarrow> \<not> is_word c"
  using white_space_facts by (simp add: is_space_def list_all_iff)

lemma space_not_table_char: "is_space c \<Longrightarrow> \<not> table_char c"
  using white_space_facts by (simp add: is_space_def list_all_iff)

lemma space_not_semicolon: "is_space c \<Longrightarrow> c \<noteq> ch CHR '';''"
  using white_space_facts by (simp add: is_space_def list_all_iff)

lemma letter_not_space: "letter c \<Longrightarrow> \<not> is_space c"
  using white_space_facts by (auto simp: is_space_def list_all_iff)

lemma special_is_word: "special c \<Longrightarrow> is_word c"
  using special_facts by (auto simp: special_def)

lemma letter_is_word: "letter c \<Longrightarrow> is_word c"
proof (cases "special c")
  case True
  then show ?thesis by (rule special_is_word)
next
  case False
  assume "letter c"
  with False have "(65 \<le> c \<and> c \<le> 90) \<or> (97 \<le> c \<and> c \<le> 122)" by (simp add: letter_def)
  then show ?thesis by (auto simp: is_word_def)
qed

lemma letter_table_char: "letter c \<Longrightarrow> table_char c"
  by (auto simp: letter_def special_def table_char_def)

text \<open>What a letter of a keyword matches is a letter.\<close>

lemma ci_match_letter: "ascii_lower p \<Longrightarrow> ci_match p c \<Longrightarrow> letter c"
  by (auto simp: ascii_lower_def ci_match_def letter_def special_def Let_def)

lemma plain_ci_match: "ascii_lower p \<Longrightarrow> plain_ci p c \<Longrightarrow> ci_match p c"
  by (auto simp: ascii_lower_def ci_match_def plain_ci_def Let_def)

lemma ci_match_plain: "ascii_lower p \<Longrightarrow> ci_match p c \<Longrightarrow> \<not> special c \<Longrightarrow> plain_ci p c"
  by (auto simp: ascii_lower_def ci_match_def plain_ci_def special_def Let_def)

lemma table_char_letter_or: "table_char c \<Longrightarrow> letter c \<or> (48 \<le> c \<and> c \<le> 57) \<or> c = 95 \<or> c = 46"
  by (auto simp: letter_def special_def table_char_def)

lemma table_char_not_quote:
  assumes "table_char c"
  shows "c \<noteq> ch CHR 0x22" "c \<noteq> ch CHR 0x27" "c \<noteq> ch CHR ''`''" "c \<noteq> ch CHR '';''"
  using assms by (auto simp: table_char_def)

lemma table_char_not_space: "table_char c \<Longrightarrow> \<not> is_space c"
  using space_not_table_char by blast

section \<open>Facts about the matcher\<close>

lemma match_at_None: "match_at r bef aft = None \<longleftrightarrow> rx_run r bef aft = []"
  by (simp add: match_at_def split: list.splits)

lemma match_at_Some_mem: "match_at r bef aft = Some x \<Longrightarrow> x \<in> set (rx_run r bef aft)"
  by (auto simp: match_at_def split: list.splits)

lemma rx_run_Seq_empty:
  "rx_run (Seq a b) bef aft = [] \<longleftrightarrow>
     (\<forall>(m, g) \<in> set (rx_run a bef aft). rx_run b (rev m @ bef) (drop (length m) aft) = [])"
  by (auto simp: split_def)

lemma rx_run_Seq_mem:
  "(m, g) \<in> set (rx_run (Seq a b) bef aft) \<longleftrightarrow>
     (\<exists>m1 g1 m2 g2. (m1, g1) \<in> set (rx_run a bef aft) \<and>
        (m2, g2) \<in> set (rx_run b (rev m1 @ bef) (drop (length m1) aft)) \<and>
        m = m1 @ m2 \<and> g = (case g2 of None \<Rightarrow> g1 | Some t \<Rightarrow> Some t))"
proof
  assume "(m, g) \<in> set (rx_run (Seq a b) bef aft)"
  then obtain x y where "x \<in> set (rx_run a bef aft)"
    "y \<in> set (rx_run b (rev (fst x) @ bef) (drop (length (fst x)) aft))"
    "m = fst x @ fst y" "g = (case snd y of None \<Rightarrow> snd x | Some t \<Rightarrow> Some t)"
    by (auto simp: split_def)
  then show "\<exists>m1 g1 m2 g2. (m1, g1) \<in> set (rx_run a bef aft) \<and>
        (m2, g2) \<in> set (rx_run b (rev m1 @ bef) (drop (length m1) aft)) \<and>
        m = m1 @ m2 \<and> g = (case g2 of None \<Rightarrow> g1 | Some t \<Rightarrow> Some t)"
    by (metis prod.collapse)
next
  assume "\<exists>m1 g1 m2 g2. (m1, g1) \<in> set (rx_run a bef aft) \<and>
        (m2, g2) \<in> set (rx_run b (rev m1 @ bef) (drop (length m1) aft)) \<and>
        m = m1 @ m2 \<and> g = (case g2 of None \<Rightarrow> g1 | Some t \<Rightarrow> Some t)"
  then obtain m1 g1 m2 g2 where a: "(m1, g1) \<in> set (rx_run a bef aft)"
    and b: "(m2, g2) \<in> set (rx_run b (rev m1 @ bef) (drop (length m1) aft))"
    and e: "m = m1 @ m2" "g = (case g2 of None \<Rightarrow> g1 | Some t \<Rightarrow> Some t)"
    by blast
  show "(m, g) \<in> set (rx_run (Seq a b) bef aft)"
    using a b e
    by (auto simp: split_def split: option.splits intro!: bexI [of _ "(m1, g1)"] image_eqI [of _ _ "(m2, g2)"])
qed

text \<open>Every text the matcher reports is a prefix of the subject.\<close>

lemma rx_run_prefix: "(m, g) \<in> set (rx_run r bef aft) \<Longrightarrow> prefix m aft"
proof (induction r arbitrary: m g bef aft)
  case (Lit w)
  then show ?case by (auto simp: take_is_prefix split: if_splits)
next
  case (Star p)
  then show ?case
    by (auto simp: in_set_prefixes intro: prefix_order.trans [OF _ takeWhile_is_prefix])
next
  case (Plus p)
  then have "m \<in> set (prefixes (takeWhile p aft))"
    by (auto dest: list.set_sel(2) [rotated])
  then show ?case
    by (auto simp: in_set_prefixes intro: prefix_order.trans [OF _ takeWhile_is_prefix])
next
  case (Seq a b)
  then obtain m1 g1 m2 g2 where a: "(m1, g1) \<in> set (rx_run a bef aft)"
    and b: "(m2, g2) \<in> set (rx_run b (rev m1 @ bef) (drop (length m1) aft))"
    and m: "m = m1 @ m2"
    unfolding rx_run_Seq_mem by blast
  from Seq.IH(1) [OF a] obtain r1 where r1: "aft = m1 @ r1" by (auto simp: prefix_def)
  from Seq.IH(2) [OF b] r1 have "prefix m2 r1" by simp
  with r1 m show ?case by (auto simp: prefix_def)
qed (auto split: if_splits)

lemma search_from_iff:
  "search_from r bef aft \<noteq> None \<longleftrightarrow> (\<exists>x y. aft = x @ y \<and> rx_run r (rev x @ bef) y \<noteq> [])"
proof (induction aft arbitrary: bef)
  case Nil
  have "search_from r bef [] \<noteq> None \<longleftrightarrow> match_at r bef [] \<noteq> None"
    by (simp split: option.splits)
  then show ?case by (simp add: match_at_None)
next
  case (Cons c cs)
  show ?case
  proof (cases "match_at r bef (c # cs)")
    case None
    then have e: "rx_run r bef (c # cs) = []" by (simp add: match_at_None)
    have "search_from r bef (c # cs) = search_from r (c # bef) cs"
      using None by simp
    also have "\<dots> \<noteq> None \<longleftrightarrow> (\<exists>x y. cs = x @ y \<and> rx_run r (rev x @ c # bef) y \<noteq> [])"
      by (rule Cons.IH)
    also have "\<dots> \<longleftrightarrow> (\<exists>x y. c # cs = x @ y \<and> rx_run r (rev x @ bef) y \<noteq> [])"
    proof
      assume "\<exists>x y. cs = x @ y \<and> rx_run r (rev x @ c # bef) y \<noteq> []"
      then obtain x y where "cs = x @ y" "rx_run r (rev x @ c # bef) y \<noteq> []" by blast
      then have "c # cs = (c # x) @ y \<and> rx_run r (rev (c # x) @ bef) y \<noteq> []" by simp
      then show "\<exists>x y. c # cs = x @ y \<and> rx_run r (rev x @ bef) y \<noteq> []" by blast
    next
      assume "\<exists>x y. c # cs = x @ y \<and> rx_run r (rev x @ bef) y \<noteq> []"
      then obtain x y where xy: "c # cs = x @ y" "rx_run r (rev x @ bef) y \<noteq> []" by blast
      with e have "x \<noteq> []" by auto
      with xy obtain x' where "x = c # x'" "cs = x' @ y" by (cases x) auto
      with xy show "\<exists>x y. cs = x @ y \<and> rx_run r (rev x @ c # bef) y \<noteq> []" by auto
    qed
    finally show ?thesis .
  next
    case (Some m)
    then have "rx_run r (rev [] @ bef) (c # cs) \<noteq> []"
      using match_at_None [of r bef "c # cs"] by simp
    then have "\<exists>x y. c # cs = x @ y \<and> rx_run r (rev x @ bef) y \<noteq> []"
      by (metis append_Nil)
    with Some show ?thesis by simp
  qed
qed

section \<open>Whole words and the word patterns\<close>

declare search_from.simps [simp del] findall_from.simps [simp del]

lemma contains_word_iff:
  "contains_word w s \<longleftrightarrow> (\<exists>x y. s = x @ y \<and> word_occurs w (rev x) y)"
proof
  assume "contains_word w s"
  then obtain i where "word_occurs w (rev (take i s)) (drop i s)"
    unfolding contains_word_def list_ex_iff by blast
  moreover have "s = take i s @ drop i s" by simp
  ultimately show "\<exists>x y. s = x @ y \<and> word_occurs w (rev x) y" by blast
next
  assume "\<exists>x y. s = x @ y \<and> word_occurs w (rev x) y"
  then obtain x y where "s = x @ y" "word_occurs w (rev x) y" by blast
  then have "length x \<in> set [0..<Suc (length s)]"
    "word_occurs w (rev (take (length x) s)) (drop (length x) s)" by auto
  then show "contains_word w s"
    unfolding contains_word_def list_ex_iff by blast
qed

text \<open>A literal keyword matches a text of letters only.\<close>

lemma lit_at_split:
  assumes "lit_at w aft"
  shows "aft = take (length w) aft @ drop (length w) aft"
    "list_all2 ci_match w (take (length w) aft)" "length (take (length w) aft) = length w"
proof -
  show "list_all2 ci_match w (take (length w) aft)" using assms by (simp add: lit_at_def)
  then have "length w = length (take (length w) aft)" by (rule list_all2_lengthD)
  then show "length (take (length w) aft) = length w" by (rule sym)
qed simp

lemma lit_at_append: "list_all2 ci_match w m \<Longrightarrow> lit_at w (m @ b)"
proof -
  assume a: "list_all2 ci_match w m"
  then have "length w = length m" by (rule list_all2_lengthD)
  with a show ?thesis by (simp add: lit_at_def)
qed

lemma list_all2_rightD:
  "list_all2 P xs ys \<Longrightarrow> y \<in> set ys \<Longrightarrow> \<exists>x \<in> set xs. P x y"
  by (induction rule: list_all2_induct) auto

lemma ci_match_letters:
  assumes "list_all2 ci_match w m" "keyword w"
  shows "m \<noteq> []" "\<forall>c \<in> set m. letter c"
proof -
  from assms(2) have "w \<noteq> []" by (simp add: keyword_def)
  with assms(1) show "m \<noteq> []" by auto
  show "\<forall>c \<in> set m. letter c"
  proof
    fix c assume "c \<in> set m"
    from list_all2_rightD [OF assms(1) this] obtain p where "p \<in> set w" "ci_match p c"
      by blast
    moreover from this(1) assms(2) have "ascii_lower p" by (simp add: keyword_def list_all_iff)
    ultimately show "letter c" using ci_match_letter by blast
  qed
qed

lemma lit_at_letters:
  assumes "lit_at w aft" "keyword w"
  shows "take (length w) aft \<noteq> []" "\<forall>c \<in> set (take (length w) aft). letter c"
  using ci_match_letters [OF lit_at_split(2) [OF assms(1)] assms(2)] by blast+

lemma word_hd_letters:
  assumes "m \<noteq> []" "\<forall>c \<in> set m. letter c"
  shows "word_hd (m @ b)" "word_hd (rev m @ b)"
proof -
  from assms obtain c cs where m: "m = c # cs" by (cases m) auto
  with assms(2) show "word_hd (m @ b)" by (simp add: word_hd_def letter_is_word)
  from assms(1) obtain d ds where r: "rev m = d # ds" by (cases "rev m") auto
  then have "d \<in> set m" by (metis list.set_intros(1) set_rev)
  with assms(2) r show "word_hd (rev m @ b)" by (simp add: word_hd_def letter_is_word)
qed

lemma word_re_run:
  assumes "keyword w"
  shows "rx_run (word_re w) bef aft \<noteq> [] \<longleftrightarrow> word_occurs w bef aft"
proof (cases "lit_at w aft")
  case False
  then show ?thesis by (simp add: word_re_def word_occurs_def)
next
  case True
  let ?m = "take (length w) aft"
  note l = lit_at_letters [OF True assms]
  have "word_hd (?m @ drop (length w) aft)" by (rule word_hd_letters [OF l])
  then have a: "word_hd aft" by simp
  have b: "word_hd (rev ?m @ bef)" by (rule word_hd_letters [OF l])
  have len: "length ?m = length w" by (rule lit_at_split [OF True])
  show ?thesis
    using True a b len by (simp add: word_re_def word_occurs_def boundary_def)
qed

lemma re_search_iff:
  "re_search r s \<noteq> None \<longleftrightarrow> (\<exists>x y. s = x @ y \<and> rx_run r (rev x) y \<noteq> [])"
  using search_from_iff [of r "[]" s] by (simp add: re_search_def)

lemma search_word:
  assumes "keyword w"
  shows "re_search (word_re w) s \<noteq> None \<longleftrightarrow> contains_word w s"
  unfolding re_search_iff contains_word_iff word_re_run [OF assms] ..

lemma findall_from_empty:
  "findall_from r bef aft = [] \<longleftrightarrow> search_from r bef aft = None"
proof (induction aft arbitrary: bef)
  case Nil
  show ?case
    by (subst findall_from.simps, subst search_from.simps) (simp split: option.splits)
next
  case (Cons c cs)
  show ?case
    by (subst findall_from.simps, subst search_from.simps)
       (simp add: Cons.IH split: option.splits)
qed

lemma re_findall_iff:
  "re_findall r s \<noteq> [] \<longleftrightarrow> (\<exists>x y. s = x @ y \<and> rx_run r (rev x) y \<noteq> [])"
  using findall_from_empty [of r "[]" s] search_from_iff [of r "[]" s]
  by (simp add: re_findall_def)

text \<open>Every text \<open>findall\<close> returns is the group of a match at some position.\<close>

lemma findall_from_mem:
  "t \<in> set (findall_from r bef aft) \<Longrightarrow>
     \<exists>x y m g. aft = x @ y \<and> (m, g) \<in> set (rx_run r (rev x @ bef) y) \<and> t = group_text g"
proof (induction r bef aft rule: findall_from.induct)
  case (1 r bef aft)
  show ?case
  proof (cases "match_at r bef aft")
    case None
    show ?thesis
    proof (cases aft)
      case Nil
      with None 1(4) show ?thesis by (subst (asm) findall_from.simps) simp
    next
      case (Cons c cs)
      with None 1(4) have "t \<in> set (findall_from r (c # bef) cs)"
        by (subst (asm) findall_from.simps) simp
      from 1(1) [OF None Cons this] obtain x y m g where
        "cs = x @ y" "(m, g) \<in> set (rx_run r (rev x @ c # bef) y)" "t = group_text g" by blast
      then have "aft = (c # x) @ y \<and> (m, g) \<in> set (rx_run r (rev (c # x) @ bef) y) \<and> t = group_text g"
        using Cons by simp
      then show ?thesis by blast
    qed
  next
    case (Some mg)
    obtain m g where mg: "mg = (m, g)" by (cases mg)
    have here: "(m, g) \<in> set (rx_run r (rev [] @ bef) ([] @ aft))"
      using match_at_Some_mem [of r bef aft mg] Some mg by simp
    show ?thesis
    proof (cases aft)
      case Nil
      with Some mg 1(4) have "t = group_text g"
        by (subst (asm) findall_from.simps) simp
      with here show ?thesis by (metis append_Nil)
    next
      case (Cons c cs)
      show ?thesis
      proof (cases "t = group_text g")
        case True
        with here show ?thesis by (metis append_Nil)
      next
        case False
        show ?thesis
        proof (cases "m = []")
          case True
          with False Some mg Cons 1(4) have "t \<in> set (findall_from r (c # bef) cs)"
            by (subst (asm) findall_from.simps) simp
          from 1(2) [OF Some mg [symmetric] Cons True this] obtain x y m' g' where
            "cs = x @ y" "(m', g') \<in> set (rx_run r (rev x @ c # bef) y)" "t = group_text g'" by blast
          then have "aft = (c # x) @ y \<and> (m', g') \<in> set (rx_run r (rev (c # x) @ bef) y) \<and> t = group_text g'"
            using Cons by simp
          then show ?thesis by blast
        next
          case mne: False
          with False Some mg Cons 1(4)
          have "t \<in> set (findall_from r (rev m @ bef) (drop (length m) aft))"
            by (subst (asm) findall_from.simps) simp
          from 1(3) [OF Some mg [symmetric] Cons mne this] obtain x y m' g' where
            xy: "drop (length m) aft = x @ y" "(m', g') \<in> set (rx_run r (rev x @ rev m @ bef) y)"
              "t = group_text g'" by blast
          have "prefix m aft" using here rx_run_prefix by force
          then have "aft = m @ drop (length m) aft" by (auto simp: prefix_def)
          with xy have "aft = (m @ x) @ y \<and> (m', g') \<in> set (rx_run r (rev (m @ x) @ bef) y) \<and> t = group_text g'"
            by simp
          then show ?thesis by blast
        qed
      qed
    qed
  qed
qed

section \<open>Facts about stripping\<close>

lemma dropWhile_id: "ys \<noteq> [] \<Longrightarrow> \<not> p (hd ys) \<Longrightarrow> dropWhile p ys = ys"
  by (cases ys) auto

lemma rstrip_by_append:
  assumes "x \<noteq> []" "\<not> p (last x)"
  shows "rstrip_by p (x @ y) = x @ rstrip_by p y"
proof -
  have "rev x \<noteq> []" using assms(1) by simp
  moreover have "\<not> p (hd (rev x))" using assms by (simp add: hd_rev)
  ultimately have "dropWhile p (rev x) = rev x" by (rule dropWhile_id)
  then show ?thesis
    by (simp add: rstrip_by_def dropWhile_append)
qed

lemma rstrip_by_split: "\<exists>z. s = rstrip_by p s @ z \<and> (\<forall>c \<in> set z. p c)"
proof -
  have "rev s = takeWhile p (rev s) @ dropWhile p (rev s)" by simp
  then have "s = rev (dropWhile p (rev s)) @ rev (takeWhile p (rev s))"
    by (metis rev_append rev_rev_ident)
  moreover have "\<forall>c \<in> set (rev (takeWhile p (rev s))). p c"
    by (auto dest: set_takeWhileD)
  ultimately show ?thesis unfolding rstrip_by_def by blast
qed

lemma rstrip_by_last: "rstrip_by p s \<noteq> [] \<Longrightarrow> \<not> p (last (rstrip_by p s))"
proof -
  assume "rstrip_by p s \<noteq> []"
  then have n: "dropWhile p (rev s) \<noteq> []" by (simp add: rstrip_by_def)
  then have "\<not> p (hd (dropWhile p (rev s)))" by (rule hd_dropWhile)
  with n show ?thesis by (simp add: rstrip_by_def last_rev)
qed

lemma rstrip_by_id: "s = [] \<or> \<not> p (last s) \<Longrightarrow> rstrip_by p s = s"
proof (cases "s = []")
  case True
  then show ?thesis by (simp add: rstrip_by_def)
next
  case False
  assume "s = [] \<or> \<not> p (last s)"
  with False have "\<not> p (last s)" by simp
  from rstrip_by_append [where x = s and p = p and y = "[]", OF False this] show ?thesis
    by (simp add: rstrip_by_def)
qed

lemma rstrip_by_set: "set (rstrip_by p s) \<subseteq> set s"
  by (auto simp: rstrip_by_def dest: set_dropWhileD)

lemma word_hd_rstrip:
  assumes "\<And>c. p c \<Longrightarrow> \<not> is_word c"
  shows "word_hd (rstrip_by p b) = word_hd b"
proof (cases b)
  case Nil
  then show ?thesis by (simp add: rstrip_by_def)
next
  case (Cons c cs)
  show ?thesis
  proof (cases "is_word c")
    case True
    then have "\<not> p c" using assms by blast
    then have "rstrip_by p ([c] @ cs) = [c] @ rstrip_by p cs"
      by (intro rstrip_by_append) simp_all
    with Cons show ?thesis by (simp add: word_hd_def)
  next
    case False
    obtain z where "b = rstrip_by p b @ z" using rstrip_by_split by blast
    with Cons have "rstrip_by p b = [] \<or> hd (rstrip_by p b) = c"
      by (metis append_Nil hd_append2 list.sel(1))
    with False Cons show ?thesis
      by (cases "rstrip_by p b") (auto simp: word_hd_def)
  qed
qed

lemma word_hd_append_space:
  "\<not> is_word c \<Longrightarrow> word_hd (b @ c # cs) = word_hd b"
  by (cases b) (simp_all add: word_hd_def)

lemma strip_by_idem:
  assumes "s \<noteq> []" "\<not> p (hd s)" "\<not> p (last s)"
  shows "strip_by p s = s"
proof -
  from assms(1,2) have "dropWhile p s = s" by (cases s) auto
  then show ?thesis using assms by (simp add: strip_by_def lstrip_by_def rstrip_by_id)
qed

text \<open>What \<open>strip\<close> returns has no white space at either end.\<close>

lemma strip_by_ends:
  assumes "strip_by p s \<noteq> []"
  shows "\<not> p (hd (strip_by p s))" "\<not> p (last (strip_by p s))"
proof -
  let ?t = "dropWhile p s"
  have "?t = [] \<Longrightarrow> strip_by p s = []"
    by (simp only: strip_by_def lstrip_by_def rstrip_by_def dropWhile.simps rev.simps)
  with assms have t: "?t \<noteq> []" by blast
  then have h: "\<not> p (hd ?t)" by (rule hd_dropWhile)
  from t have "rstrip_by p ([hd ?t] @ tl ?t) = [hd ?t] @ rstrip_by p (tl ?t)"
    using h by (intro rstrip_by_append) simp_all
  with t have "hd (rstrip_by p ?t) = hd ?t" by simp
  with h show "\<not> p (hd (strip_by p s))" by (simp add: strip_by_def lstrip_by_def)
  show "\<not> p (last (strip_by p s))"
    using assms rstrip_by_last [of p ?t] by (simp add: strip_by_def lstrip_by_def)
qed

lemma strip_by_strip_by: "strip_by p (strip_by p s) = strip_by p s"
proof (cases "strip_by p s = []")
  case True
  have "strip_by p [] = []" by (simp add: strip_by_def lstrip_by_def rstrip_by_def)
  then show ?thesis unfolding True .
next
  case False
  from strip_by_idem [OF False strip_by_ends [OF False]] show ?thesis .
qed

text \<open>Where a whole word stands in a text, it stands in the stripped text.\<close>

lemma word_occurs_split:
  assumes "keyword w" "word_occurs w (rev a) y"
  obtains m b where "y = m @ b" "list_all2 ci_match w m" "m \<noteq> []"
    "\<forall>c \<in> set m. letter c" "\<not> word_hd (rev a)" "\<not> word_hd b"
proof -
  from assms(2) have l: "lit_at w y" and nb: "\<not> word_hd (rev a)"
    and na: "\<not> word_hd (drop (length w) y)" by (simp_all add: word_occurs_def)
  show ?thesis
    using that [of "take (length w) y" "drop (length w) y"]
      lit_at_split [OF l] lit_at_letters [OF l assms(1)] nb na by simp
qed

lemma word_occurs_intro:
  assumes "list_all2 ci_match w m" "\<not> word_hd (rev a)" "\<not> word_hd b"
  shows "word_occurs w (rev a) (m @ b)"
proof -
  have "length m = length w" using list_all2_lengthD [OF assms(1)] by simp
  then show ?thesis using assms by (simp add: word_occurs_def lit_at_def)
qed

lemma word_hd_rev_dropWhile:
  "\<not> word_hd (rev a) \<Longrightarrow> \<not> word_hd (rev (dropWhile p a))"
proof -
  assume n: "\<not> word_hd (rev a)"
  show ?thesis
  proof (cases "dropWhile p a = []")
    case True
    show ?thesis unfolding True by (simp add: word_hd_def)
  next
    case False
    have "a = takeWhile p a @ dropWhile p a" by simp
    then have "last a = last (dropWhile p a)" using False by (metis last_appendR)
    moreover have "a \<noteq> []" using False by auto
    ultimately have "hd (rev a) = hd (rev (dropWhile p a))" by (simp add: hd_rev)
    moreover have "rev a \<noteq> []" "rev (dropWhile p a) \<noteq> []" using False \<open>a \<noteq> []\<close> by simp_all
    ultimately show ?thesis using n
      by (cases "rev a"; cases "rev (dropWhile p a)") (auto simp: word_hd_def)
  qed
qed

lemma dropWhile_before_word:
  assumes "m \<noteq> []" "\<not> p (hd m)"
  shows "dropWhile p (a @ m @ b) = dropWhile p a @ m @ b"
proof (cases "\<forall>c \<in> set a. p c")
  case True
  then have "dropWhile p a = []" by simp
  moreover from assms have "dropWhile p (m @ b) = m @ b" by (cases m) auto
  ultimately show ?thesis using True by (simp add: dropWhile_append)
next
  case False
  then show ?thesis by (auto simp: dropWhile_append)
qed

lemma contains_word_strip_by:
  assumes k: "keyword w" and p: "\<And>c. p c \<Longrightarrow> \<not> is_word c" and c: "contains_word w s"
  shows "contains_word w (strip_by p s)"
proof -
  from c obtain a y where s: "s = a @ y" and o: "word_occurs w (rev a) y"
    unfolding contains_word_iff by blast
  from word_occurs_split [OF k o] obtain m b where y: "y = m @ b" and m: "list_all2 ci_match w m"
    and ne: "m \<noteq> []" and le: "\<forall>c \<in> set m. letter c"
    and nb: "\<not> word_hd (rev a)" and na: "\<not> word_hd b" by blast
  have wm: "\<forall>c \<in> set m. \<not> p c" using le p letter_is_word by blast
  have "\<not> p (hd m)" "\<not> p (last m)" using wm ne by simp_all
  then have d: "dropWhile p (a @ m @ b) = dropWhile p a @ m @ b"
    using dropWhile_before_word [OF ne] by blast
  have "rstrip_by p ((dropWhile p a @ m) @ b) = (dropWhile p a @ m) @ rstrip_by p b"
    using ne \<open>\<not> p (last m)\<close> by (intro rstrip_by_append) simp_all
  with d s y have e: "strip_by p s = dropWhile p a @ (m @ rstrip_by p b)"
    by (simp add: strip_by_def lstrip_by_def)
  have "word_occurs w (rev (dropWhile p a)) (m @ rstrip_by p b)"
    using m word_hd_rev_dropWhile [OF nb] na word_hd_rstrip [of p b, OF p]
    by (intro word_occurs_intro) simp_all
  with e show ?thesis unfolding contains_word_iff by blast
qed

section \<open>The plain reading of "case-insensitive" and the reading of the patterns\<close>

lemma fold_special_id: "\<not> special c \<Longrightarrow> fold_special c = c"
  by (simp add: special_def fold_special_def)

lemma ci_match_fold: "ascii_lower p \<Longrightarrow> ci_match p c \<longleftrightarrow> plain_ci p (fold_special c)"
  by (auto simp: ascii_lower_def ci_match_def plain_ci_def fold_special_def Let_def)

lemma is_word_fold: "is_word (fold_special c) = is_word c"
proof -
  have "is_word 304" "is_word 305" "is_word 383" "is_word 8490"
    using special_facts by simp_all
  moreover have "is_word 105" "is_word 115" "is_word 107" by (simp_all add: is_word_def)
  ultimately show ?thesis by (simp add: fold_special_def)
qed

lemma is_space_fold: "is_space (fold_special c) = is_space c"
  by (simp add: fold_special_def is_space_def white_space_def)

lemma word_hd_fold: "word_hd (map fold_special s) = word_hd s"
  by (cases s) (simp_all add: word_hd_def is_word_fold)

lemma list_all2_fold:
  assumes "list_all ascii_lower w"
  shows "list_all2 ci_match w ys \<longleftrightarrow> list_all2 plain_ci w (map fold_special ys)"
  using assms
proof (induction w arbitrary: ys)
  case Nil
  then show ?case by simp
next
  case (Cons p ps)
  then show ?case by (cases ys) (simp_all add: ci_match_fold)
qed

lemma lit_at_fold: "keyword w \<Longrightarrow> lit_at w aft \<longleftrightarrow> plain_lit_at w (map fold_special aft)"
  by (simp add: keyword_def lit_at_def plain_lit_at_def take_map list_all2_fold)

lemma word_occurs_fold:
  "keyword w \<Longrightarrow>
     word_occurs w bef aft \<longleftrightarrow> plain_word_occurs w (map fold_special bef) (map fold_special aft)"
  by (simp add: word_occurs_def plain_word_occurs_def lit_at_fold word_hd_fold drop_map)

lemma contains_word_fold:
  assumes "keyword w"
  shows "contains_word w s \<longleftrightarrow> plain_contains_word w (map fold_special s)"
  unfolding contains_word_def plain_contains_word_def list_ex_iff
  by (simp add: word_occurs_fold [OF assms] take_map drop_map rev_map)

lemma begins_with_select_fold:
  "begins_with_select s \<longleftrightarrow> plain_begins_with_select (map fold_special s)"
proof -
  have "is_space \<circ> fold_special = is_space" by (rule ext) (simp add: is_space_fold)
  then have "lstrip_by is_space (map fold_special s) = map fold_special (lstrip_by is_space s)"
    by (simp add: lstrip_by_def dropWhile_map)
  moreover have "keyword (ustr ''select'')" by (simp add: keyword_def ascii_lower_def)
  ultimately show ?thesis
    unfolding begins_with_select_def plain_begins_with_select_def
    using word_occurs_fold [of "ustr ''select''" "[]" "lstrip_by is_space s"] by simp
qed

text \<open>The plain reading is the narrower one.\<close>

lemma plain_lit_at_imp: "keyword w \<Longrightarrow> plain_lit_at w aft \<Longrightarrow> lit_at w aft"
proof -
  assume k: "keyword w" and p: "plain_lit_at w aft"
  have "list_all2 ci_match w ys" if "list_all2 plain_ci w ys" for ys
    using that
  proof (rule list.rel_mono_strong)
    fix p c assume "p \<in> set w" "c \<in> set ys" "plain_ci p c"
    with k show "ci_match p c" by (simp add: keyword_def list_all_iff plain_ci_match)
  qed
  with p show ?thesis by (simp add: lit_at_def plain_lit_at_def)
qed

lemma plain_word_occurs_imp: "keyword w \<Longrightarrow> plain_word_occurs w bef aft \<Longrightarrow> word_occurs w bef aft"
  by (simp add: word_occurs_def plain_word_occurs_def plain_lit_at_imp)

lemma plain_contains_word_imp: "keyword w \<Longrightarrow> plain_contains_word w s \<Longrightarrow> contains_word w s"
  unfolding contains_word_def plain_contains_word_def list_ex_iff
  using plain_word_occurs_imp by blast

lemma plain_begins_with_select_imp: "plain_begins_with_select s \<Longrightarrow> begins_with_select s"
  unfolding begins_with_select_def plain_begins_with_select_def
  by (rule plain_word_occurs_imp) (simp_all add: keyword_def ascii_lower_def)


lemma keyword_select: "keyword (ustr ''select'')"
  by (simp add: keyword_def ascii_lower_def)

lemma keyword_limit: "keyword (ustr ''limit'')"
  by (simp add: keyword_def ascii_lower_def)

lemma keyword_banned: "w \<in> set banned_words \<Longrightarrow> keyword w"
  by (auto simp: banned_words_def keyword_def ascii_lower_def)

lemma word_hd_spaces: "\<forall>c \<in> set z. \<not> is_word c \<Longrightarrow> \<not> word_hd (z @ y) \<longleftrightarrow> \<not> word_hd y \<or> z \<noteq> []"
  by (cases z) (auto simp: word_hd_def)

lemma word_occurs_rstrip:
  assumes k: "keyword w" and p: "\<And>c. p c \<Longrightarrow> \<not> is_word c"
  shows "word_occurs w (rev a) (rstrip_by p t) \<longleftrightarrow> word_occurs w (rev a) t"
proof
  assume o: "word_occurs w (rev a) t"
  from word_occurs_split [OF k o] obtain m b where t: "t = m @ b" and m: "list_all2 ci_match w m"
    and ne: "m \<noteq> []" and le: "\<forall>c \<in> set m. letter c"
    and nb: "\<not> word_hd (rev a)" and na: "\<not> word_hd b" by blast
  have "\<not> p (last m)" using le p letter_is_word ne by (metis last_in_set)
  then have "rstrip_by p (m @ b) = m @ rstrip_by p b"
    using ne by (intro rstrip_by_append) simp_all
  moreover have "word_occurs w (rev a) (m @ rstrip_by p b)"
    using m nb na word_hd_rstrip [of p b, OF p] by (intro word_occurs_intro) simp_all
  ultimately show "word_occurs w (rev a) (rstrip_by p t)" using t by simp
next
  assume o: "word_occurs w (rev a) (rstrip_by p t)"
  from word_occurs_split [OF k o] obtain m b where t: "rstrip_by p t = m @ b"
    and m: "list_all2 ci_match w m" and nb: "\<not> word_hd (rev a)" and na: "\<not> word_hd b" by blast
  obtain z where z: "t = rstrip_by p t @ z" "\<forall>c \<in> set z. p c" using rstrip_by_split by blast
  have "\<not> word_hd (b @ z)"
  proof (cases b)
    case Nil
    with z(2) p show ?thesis by (cases z) (auto simp: word_hd_def)
  next
    case (Cons c cs)
    with na show ?thesis by (simp add: word_hd_def)
  qed
  then have "word_occurs w (rev a) (m @ (b @ z))"
    using m nb by (intro word_occurs_intro) simp_all
  with z(1) t show "word_occurs w (rev a) t" by (metis append.assoc)
qed

lemma contains_word_rstrip:
  assumes k: "keyword w" and p: "\<And>c. p c \<Longrightarrow> \<not> is_word c" and c: "contains_word w s"
  shows "contains_word w (rstrip_by p s)"
proof -
  from c obtain a y where s: "s = a @ y" and o: "word_occurs w (rev a) y"
    unfolding contains_word_iff by blast
  from word_occurs_split [OF k o] obtain m b where y: "y = m @ b" and m: "list_all2 ci_match w m"
    and ne: "m \<noteq> []" and le: "\<forall>c \<in> set m. letter c"
    and nb: "\<not> word_hd (rev a)" and na: "\<not> word_hd b" by blast
  have "\<not> p (last m)" using le p letter_is_word ne by (metis last_in_set)
  then have "rstrip_by p ((a @ m) @ b) = (a @ m) @ rstrip_by p b"
    using ne by (intro rstrip_by_append) simp_all
  with s y have e: "rstrip_by p s = a @ (m @ rstrip_by p b)" by simp
  have "word_occurs w (rev a) (m @ rstrip_by p b)"
    using m nb na word_hd_rstrip [of p b, OF p] by (intro word_occurs_intro) simp_all
  with e show ?thesis unfolding contains_word_iff by blast
qed

lemma contains_word_append:
  assumes k: "keyword w" and c: "contains_word w s" and n: "\<not> is_word d"
  shows "contains_word w (s @ d # ds)"
proof -
  from c obtain a y where s: "s = a @ y" and o: "word_occurs w (rev a) y"
    unfolding contains_word_iff by blast
  from word_occurs_split [OF k o] obtain m b where y: "y = m @ b" and m: "list_all2 ci_match w m"
    and nb: "\<not> word_hd (rev a)" and na: "\<not> word_hd b" by blast
  have "\<not> word_hd (b @ d # ds)" using na n by (simp add: word_hd_append_space)
  then have "word_occurs w (rev a) (m @ (b @ d # ds))"
    using m nb by (intro word_occurs_intro) simp_all
  moreover have "s @ d # ds = a @ (m @ (b @ d # ds))" using s y by simp
  ultimately show ?thesis unfolding contains_word_iff by blast
qed

section \<open>The first gate of the guardrail\<close>

lemma lit_word_run:
  assumes "keyword w"
  shows "rx_run (Seq (Lit w) WordB) bef aft \<noteq> [] \<longleftrightarrow>
         lit_at w aft \<and> \<not> word_hd (drop (length w) aft)"
proof (cases "lit_at w aft")
  case False
  then show ?thesis by simp
next
  case True
  note l = lit_at_letters [OF True assms]
  have b: "word_hd (rev (take (length w) aft) @ bef)" by (rule word_hd_letters [OF l])
  have len: "length (take (length w) aft) = length w" by (rule lit_at_split [OF True])
  show ?thesis using True b len by (simp add: boundary_def)
qed

lemma lit_at_not_space:
  assumes "keyword w" "lit_at w aft"
  shows "aft \<noteq> []" "\<not> is_space (hd aft)"
proof -
  note l = lit_at_letters [OF assms(2,1)]
  from l(1) show ne: "aft \<noteq> []" by auto
  then obtain c cs where a: "aft = c # cs" by (cases aft) auto
  from assms(1) obtain k where "length w = Suc k" by (cases w) (auto simp: keyword_def)
  with a have "hd aft \<in> set (take (length w) aft)" by simp
  with l(2) show "\<not> is_space (hd aft)" using letter_not_space by blast
qed

lemma bol_seq_run: "rx_run (Seq Bol r) [] s = [] \<longleftrightarrow> rx_run r [] s = []"
  unfolding rx_run_Seq_empty by simp

lemma star_seq_run:
  "rx_run (Seq (Star p) r) bef s = [] \<longleftrightarrow>
     (\<forall>m. prefix m (takeWhile p s) \<longrightarrow> rx_run r (rev m @ bef) (drop (length m) s) = [])"
  unfolding rx_run_Seq_empty by (auto simp: in_set_prefixes)

lemma select_run:
  "rx_run select_re [] s \<noteq> [] \<longleftrightarrow> begins_with_select s"
proof -
  let ?w = "(ustr ''select'')"
  let ?ws = "takeWhile is_space s"
  let ?t = "dropWhile is_space s"
  have s: "s = ?ws @ ?t" by simp
  have "rx_run select_re [] s \<noteq> [] \<longleftrightarrow>
        (\<exists>m \<in> set (prefixes ?ws). rx_run (Seq (Lit ?w) WordB) (rev m) (drop (length m) s) \<noteq> [])"
    unfolding select_re_def bol_seq_run star_seq_run by (auto simp: in_set_prefixes)
  also have "\<dots> \<longleftrightarrow> (\<exists>m. prefix m ?ws \<and> lit_at ?w (drop (length m) s) \<and>
        \<not> word_hd (drop (length ?w) (drop (length m) s)))"
    unfolding lit_word_run [OF keyword_select] by (auto simp: in_set_prefixes)
  also have "\<dots> \<longleftrightarrow> lit_at ?w ?t \<and> \<not> word_hd (drop (length ?w) ?t)"
  proof
    assume "\<exists>m. prefix m ?ws \<and> lit_at ?w (drop (length m) s) \<and>
        \<not> word_hd (drop (length ?w) (drop (length m) s))"
    then obtain m z where mz: "?ws = m @ z" and l: "lit_at ?w (drop (length m) s)"
      and n: "\<not> word_hd (drop (length ?w) (drop (length m) s))" by (auto simp: prefix_def)
    have d: "drop (length m) s = z @ ?t"
      by (subst s, subst mz) simp
    have "z = []"
    proof (rule ccontr)
      assume "z \<noteq> []"
      then have "hd (z @ ?t) \<in> set ?ws" unfolding mz by (cases z) auto
      then have "is_space (hd (z @ ?t))" by (auto dest: set_takeWhileD)
      with lit_at_not_space [OF keyword_select l] d show False by simp
    qed
    with d l n show "lit_at ?w ?t \<and> \<not> word_hd (drop (length ?w) ?t)" by simp
  next
    assume a: "lit_at ?w ?t \<and> \<not> word_hd (drop (length ?w) ?t)"
    have "drop (length ?ws) s = ?t" by (subst s) (simp del: takeWhile_dropWhile_id)
    with a have "prefix ?ws ?ws \<and> lit_at ?w (drop (length ?ws) s) \<and>
        \<not> word_hd (drop (length ?w) (drop (length ?ws) s))" by simp
    then show "\<exists>m. prefix m ?ws \<and> lit_at ?w (drop (length m) s) \<and>
        \<not> word_hd (drop (length ?w) (drop (length m) s))" by blast
  qed
  finally show ?thesis
    by (simp add: begins_with_select_def word_occurs_def lstrip_by_def word_hd_def)
qed

lemma begins_with_select_strip: "begins_with_select (strip s) \<longleftrightarrow> begins_with_select s"
proof -
  let ?t = "dropWhile is_space s"
  have "strip_by is_space (strip s) = strip s"
    unfolding strip_def by (rule strip_by_strip_by)
  then have "lstrip_by is_space (strip s) = strip s"
    by (metis strip_by_def strip_def lstrip_by_def rstrip_by_def dropWhile_idem
        strip_by_ends(1) dropWhile_id dropWhile.simps(1))
  then have "begins_with_select (strip s) \<longleftrightarrow> word_occurs (ustr ''select'') (rev []) (rstrip_by is_space ?t)"
    by (simp add: begins_with_select_def strip_def strip_by_def lstrip_by_def)
  also have "\<dots> \<longleftrightarrow> word_occurs (ustr ''select'') (rev []) ?t"
    by (rule word_occurs_rstrip [OF keyword_select space_not_word])
  finally show ?thesis by (simp add: begins_with_select_def lstrip_by_def)
qed

lemma check_tables_error: "check_tables A ts = Some e \<Longrightarrow> e = SchemaNotAllowed A"
  by (induction ts) (auto simp: Let_def split: if_splits)

lemma select_gate: "re_match select_re (strip s) = None \<longleftrightarrow> \<not> begins_with_select s"
  unfolding re_match_def match_at_None
  using select_run [of "strip s"] begins_with_select_strip [of s] by blast

text \<open>
  Claim C1 (as amended). \<^verbatim>\<open>sanitize_sql\<close> raises the error of its first gate, "Only SELECT
  queries are allowed.", exactly for the candidates that do not begin with the token
  \<^verbatim>\<open>SELECT\<close> as \<^verbatim>\<open>re.IGNORECASE\<close> reads it: after the leading white space stands \<^verbatim>\<open>select\<close> as a
  whole word, each letter in lower or in upper case, where U+017F stands for an \<^verbatim>\<open>s\<close> as well
  (and U+0130, U+0131 for \<^verbatim>\<open>i\<close>, U+212A for \<^verbatim>\<open>k\<close>, of which \<^verbatim>\<open>select\<close> has none). So every
  candidate that begins with \<^verbatim>\<open>SELECT\<close> in lower and upper case letters passes the first
  gate, and every candidate that is rejected by it does not begin so.
\<close>

theorem not_select_iff:
  "(sanitize_sql A n s = Inl NotSelect \<longleftrightarrow> \<not> begins_with_select s) \<and>
   (begins_with_select s \<longleftrightarrow> plain_begins_with_select (map fold_special s)) \<and>
   (plain_begins_with_select s \<longrightarrow> sanitize_sql A n s \<noteq> Inl NotSelect)"
proof -
  have 1: "sanitize_sql A n s = Inl NotSelect \<longleftrightarrow> \<not> begins_with_select s"
  proof (cases "begins_with_select s")
    case False
    then show ?thesis by (simp add: sanitize_sql_def select_gate)
  next
    case True
    then have "re_match select_re (strip s) \<noteq> None" by (simp add: select_gate)
    moreover have "(case check_tables A ts of Some e \<Rightarrow> Inl e | None \<Rightarrow> y) \<noteq> Inl NotSelect"
      if "y \<noteq> Inl NotSelect" for ts and y :: "error + pystr"
      using that check_tables_error [of A ts] by (cases "check_tables A ts") auto
    ultimately have "sanitize_sql A n s \<noteq> Inl NotSelect"
      unfolding sanitize_sql_def Let_def by simp
    with True show ?thesis by simp
  qed
  have 2: "begins_with_select s \<longleftrightarrow> plain_begins_with_select (map fold_special s)"
    by (rule begins_with_select_fold)
  have 3: "plain_begins_with_select s \<longrightarrow> sanitize_sql A n s \<noteq> Inl NotSelect"
    using 1 plain_begins_with_select_imp by blast
  from 1 2 3 show ?thesis by (intro conjI)
qed

theorem not_select_iff_witness:
  "plain_begins_with_select (ustr '' Select 1'') \<and>
   sanitize_sql {ustr ''nyc_taxi''} 100 (ustr '' Select 1'') \<noteq> Inl NotSelect \<and>
   \<not> plain_begins_with_select (map fold_special (ustr ''drop table x'')) \<and>
   sanitize_sql {ustr ''nyc_taxi''} 100 (ustr ''drop table x'') = Inl NotSelect"
proof -
  have h1: "plain_begins_with_select (ustr '' Select 1'')" by code_simp
  have h2: "\<not> plain_begins_with_select (map fold_special (ustr ''drop table x''))" by code_simp
  from not_select_iff [of "{ustr ''nyc_taxi''}" 100 "ustr '' Select 1''"] h1
  have 1: "sanitize_sql {ustr ''nyc_taxi''} 100 (ustr '' Select 1'') \<noteq> Inl NotSelect" by blast
  from not_select_iff [of "{ustr ''nyc_taxi''}" 100 "ustr ''drop table x''"] h2
  have 2: "sanitize_sql {ustr ''nyc_taxi''} 100 (ustr ''drop table x'') = Inl NotSelect" by blast
  from h1 1 h2 2 show ?thesis by (intro conjI)
qed

theorem not_select_counterexample:
  "\<not> plain_begins_with_select (383 # ustr ''elect 1'') \<and>
   sanitize_sql {ustr ''nyc_taxi''} 100 (383 # ustr ''elect 1'') =
     Inr (383 # ustr ''elect 1 LIMIT 100'')"
  by code_simp

section \<open>The gates of the guardrail, step by step\<close>

lemma limit_re_word: "limit_re = word_re (ustr ''limit'')"
  by (simp add: limit_re_def word_re_def)

lemma word_re_run_raw:
  "rx_run (word_re w) bef aft \<noteq> [] \<longleftrightarrow>
     boundary bef aft \<and> lit_at w aft \<and>
     boundary (rev (take (length w) aft) @ bef) (drop (length w) aft)"
proof (cases "lit_at w aft")
  case False
  then show ?thesis by (simp add: word_re_def)
next
  case True
  have len: "length (take (length w) aft) = length w" by (rule lit_at_split [OF True])
  show ?thesis using True len by (simp add: word_re_def)
qed

lemma group_word_run:
  "rx_run (Seq WordB (Seq (Group r) WordB)) bef aft \<noteq> [] \<longleftrightarrow>
     boundary bef aft \<and>
     (\<exists>(m, g) \<in> set (rx_run r bef aft). boundary (rev m @ bef) (drop (length m) aft))"
  by (auto simp: split_def)

lemma lit_set:
  "set (rx_run (Lit w) bef aft) = {x. lit_at w aft \<and> x = (take (length w) aft, None)}"
  by auto

lemma alt_set: "set (rx_run (Alt a b) bef aft) = set (rx_run a bef aft) \<union> set (rx_run b bef aft)"
  by simp

lemma banned_alts_mem:
  "x \<in> set (rx_run banned_alts bef aft) \<longleftrightarrow>
     (\<exists>w \<in> set banned_words. lit_at w aft \<and> x = (take (length w) aft, None))"
  unfolding banned_alts_def banned_words_def alt_set lit_set
  by (simp del: rx_run.simps) blast

lemma banned_run:
  "rx_run banned_re bef aft \<noteq> [] \<longleftrightarrow> (\<exists>w \<in> set banned_words. word_occurs w bef aft)"
proof -
  have "rx_run banned_re bef aft \<noteq> [] \<longleftrightarrow>
     boundary bef aft \<and> (\<exists>(m, g) \<in> set (rx_run banned_alts bef aft).
        boundary (rev m @ bef) (drop (length m) aft))"
    unfolding banned_re_def by (rule group_word_run)
  also have "\<dots> \<longleftrightarrow> (\<exists>w \<in> set banned_words. rx_run (word_re w) bef aft \<noteq> [])"
  proof
    assume a: "boundary bef aft \<and> (\<exists>(m, g) \<in> set (rx_run banned_alts bef aft).
        boundary (rev m @ bef) (drop (length m) aft))"
    then obtain m g where mg: "(m, g) \<in> set (rx_run banned_alts bef aft)"
      and b: "boundary (rev m @ bef) (drop (length m) aft)" by blast
    from mg obtain w where w: "w \<in> set banned_words" "lit_at w aft"
      "m = take (length w) aft" unfolding banned_alts_mem by blast
    have "length m = length w" unfolding w(3) by (rule lit_at_split [OF w(2)])
    with b w(3) have "boundary (rev (take (length w) aft) @ bef) (drop (length w) aft)"
      by simp
    with a w show "\<exists>w \<in> set banned_words. rx_run (word_re w) bef aft \<noteq> []"
      unfolding word_re_run_raw by blast
  next
    assume "\<exists>w \<in> set banned_words. rx_run (word_re w) bef aft \<noteq> []"
    then obtain w where w: "w \<in> set banned_words" "boundary bef aft" "lit_at w aft"
      "boundary (rev (take (length w) aft) @ bef) (drop (length w) aft)"
      unfolding word_re_run_raw by blast
    have len: "length (take (length w) aft) = length w" by (rule lit_at_split [OF w(3)])
    have "(take (length w) aft, None) \<in> set (rx_run banned_alts bef aft)"
      unfolding banned_alts_mem using w by blast
    moreover have "boundary (rev (take (length w) aft) @ bef)
        (drop (length (take (length w) aft)) aft)"
      unfolding len by (rule w(4))
    ultimately show "boundary bef aft \<and> (\<exists>(m, g) \<in> set (rx_run banned_alts bef aft).
        boundary (rev m @ bef) (drop (length m) aft))"
      using w(2) by blast
  qed
  also have "\<dots> \<longleftrightarrow> (\<exists>w \<in> set banned_words. word_occurs w bef aft)"
    using word_re_run [OF keyword_banned] by blast
  finally show ?thesis .
qed

lemma findall_banned:
  "re_findall banned_re q \<noteq> [] \<longleftrightarrow> (\<exists>w \<in> set banned_words. contains_word w q)"
  unfolding re_findall_iff banned_run contains_word_iff by blast

lemma search_limit: "re_search limit_re q = None \<longleftrightarrow> \<not> contains_word (ustr ''limit'') q"
  unfolding limit_re_word using search_word [OF keyword_limit, of q] by blast

lemma strip_strip: "strip (strip s) = strip s"
  unfolding strip_def by (rule strip_by_strip_by)

lemma rstrip_strip: "rstrip (strip s) = strip s"
proof (cases "strip s = []")
  case True
  then show ?thesis by (simp add: rstrip_def rstrip_by_def)
next
  case False
  then have "\<not> is_space (last (strip s))"
    unfolding strip_def by (rule strip_by_ends)
  then show ?thesis unfolding rstrip_def by (intro rstrip_by_id) simp
qed

text \<open>The steps of \<open>sanitize_sql\<close>, each gate stated with the notions above.\<close>

lemma sanitize_sql_steps:
  "sanitize_sql A n s =
     (if \<not> begins_with_select s then Inl NotSelect
      else if ch CHR '';'' \<in> set (rstrip_chars (ustr '';'') (strip s)) then Inl MultipleStatements
      else case check_tables A (re_findall table_re (enforce_limit n (strip s))) of
             Some e \<Rightarrow> Inl e
           | None \<Rightarrow>
               if \<exists>w \<in> set banned_words. contains_word w (enforce_limit n (strip s))
               then Inl BannedKeyword
               else Inr (enforce_limit n (strip s)))"
  unfolding sanitize_sql_def Let_def select_gate strip_strip findall_banned ..

lemma enforce_limit_steps:
  "enforce_limit n q =
     (if contains_word (ustr ''limit'') q then q
      else rstrip_chars (ustr '';'') (rstrip q) @ (ustr '' LIMIT '') @ int_str n)"
  unfolding enforce_limit_def search_limit by simp

section \<open>The banned-keyword scan\<close>

lemma semicolon_not_word: "\<not> is_word (ch CHR '';'')"
  by (simp add: is_word_def)

lemma blank_facts: "\<not> is_word (ch CHR '' '')" "is_space (ch CHR '' '')"
  by (simp_all add: is_word_def is_space_def white_space_def)

lemma in_semis_not_word: "c \<in> set (ustr '';'') \<Longrightarrow> \<not> is_word c"
  using semicolon_not_word by simp

lemma word_hd_append_nonword:
  assumes "\<forall>c \<in> set z. \<not> is_word c" "\<not> word_hd b"
  shows "\<not> word_hd (b @ z)"
proof (cases b)
  case Nil
  with assms(1) show ?thesis by (cases z) (auto simp: word_hd_def)
next
  case (Cons c cs)
  with assms(2) show ?thesis by (simp add: word_hd_def)
qed

lemma word_hd_rev_prepend_nonword:
  assumes "\<forall>c \<in> set pre. \<not> is_word c" "\<not> word_hd (rev a)"
  shows "\<not> word_hd (rev (pre @ a))"
  using word_hd_append_nonword [of "rev pre" "rev a"] assms by simp

lemma contains_word_embed:
  assumes c: "contains_word w x" and pre: "\<forall>c \<in> set pre. \<not> is_word c"
    and post: "\<forall>c \<in> set post. \<not> is_word c" and k: "keyword w"
  shows "contains_word w (pre @ x @ post)"
proof -
  from c obtain a y where x: "x = a @ y" and o: "word_occurs w (rev a) y"
    unfolding contains_word_iff by blast
  from word_occurs_split [OF k o] obtain m b where y: "y = m @ b" and m: "list_all2 ci_match w m"
    and nb: "\<not> word_hd (rev a)" and na: "\<not> word_hd b" by blast
  have "word_occurs w (rev (pre @ a)) (m @ (b @ post))"
    using m word_hd_rev_prepend_nonword [OF pre nb] word_hd_append_nonword [OF post na]
    by (intro word_occurs_intro)
  moreover have "pre @ x @ post = (pre @ a) @ (m @ (b @ post))" using x y by simp
  ultimately show ?thesis unfolding contains_word_iff by blast
qed

lemma strip_by_split:
  "\<exists>pre post. s = pre @ strip_by p s @ post \<and> (\<forall>c \<in> set pre. p c) \<and> (\<forall>c \<in> set post. p c)"
proof -
  obtain z where z: "dropWhile p s = rstrip_by p (dropWhile p s) @ z" "\<forall>c \<in> set z. p c"
    using rstrip_by_split by blast
  have "s = takeWhile p s @ dropWhile p s" by simp
  with z(1) have "s = takeWhile p s @ strip_by p s @ z"
    by (simp add: strip_by_def lstrip_by_def)
  moreover have "\<forall>c \<in> set (takeWhile p s). p c" by (auto dest: set_takeWhileD)
  ultimately show ?thesis using z(2) by blast
qed

lemma contains_word_strip_iff:
  assumes "keyword w"
  shows "contains_word w (strip s) \<longleftrightarrow> contains_word w s"
proof
  assume "contains_word w s"
  then show "contains_word w (strip s)"
    unfolding strip_def using assms space_not_word by (intro contains_word_strip_by)
next
  assume c: "contains_word w (strip s)"
  obtain pre post where s: "s = pre @ strip s @ post" and "\<forall>c \<in> set pre. is_space c"
    "\<forall>c \<in> set post. is_space c"
    unfolding strip_def using strip_by_split by blast
  then have "\<forall>c \<in> set pre. \<not> is_word c" "\<forall>c \<in> set post. \<not> is_word c"
    using space_not_word by blast+
  from contains_word_embed [OF c this assms] s show "contains_word w s" by simp
qed

lemma limit_suffix: "(ustr '' LIMIT '') @ t = ch CHR '' '' # ((ustr ''LIMIT '') @ t)"
  by simp

lemma contains_word_enforce_limit:
  assumes k: "keyword w" and c: "contains_word w q"
  shows "contains_word w (enforce_limit n q)"
proof (cases "contains_word (ustr ''limit'') q")
  case True
  with c show ?thesis by (simp add: enforce_limit_steps)
next
  case False
  have "contains_word w (rstrip q)"
    unfolding rstrip_def using k space_not_word c by (intro contains_word_rstrip)
  then have "contains_word w (rstrip_chars (ustr '';'') (rstrip q))"
    unfolding rstrip_chars_def using k in_semis_not_word by (intro contains_word_rstrip)
  then have "contains_word w (rstrip_chars (ustr '';'') (rstrip q) @ ch CHR '' '' # ((ustr ''LIMIT '') @ int_str n))"
    using k blank_facts(1) by (intro contains_word_append)
  with False show ?thesis by (simp add: enforce_limit_steps)
qed

text \<open>
  Claim C2 (as amended). A candidate that contains a keyword of the banned set as a whole
  word, in any case, anywhere in the statement, is never accepted: it is rejected by the
  first gate it fails, and by the banned-keyword scan with "Only read-only SELECT queries
  are allowed." when it passes the three gates before. The message names no keyword.
\<close>

theorem banned_keyword_rejected:
  assumes "w \<in> set banned_words" "contains_word w s"
  shows "sanitize_sql A n s =
     (if \<not> begins_with_select s then Inl NotSelect
      else if ch CHR '';'' \<in> set (rstrip_chars (ustr '';'') (strip s)) then Inl MultipleStatements
      else case check_tables A (re_findall table_re (enforce_limit n (strip s))) of
             Some e \<Rightarrow> Inl (SchemaNotAllowed A)
           | None \<Rightarrow> Inl BannedKeyword)"
proof -
  have k: "keyword w" using assms(1) by (rule keyword_banned)
  have "contains_word w (strip s)" using assms(2) contains_word_strip_iff [OF k] by blast
  then have "contains_word w (enforce_limit n (strip s))"
    by (rule contains_word_enforce_limit [OF k])
  with assms(1) have "\<exists>w \<in> set banned_words. contains_word w (enforce_limit n (strip s))"
    by blast
  then show ?thesis
    unfolding sanitize_sql_steps [of A n s]
    by (auto split: option.splits dest: check_tables_error)
qed

theorem banned_keyword_rejected_witness:
  "(ustr ''drop'') \<in> set banned_words \<and> contains_word (ustr ''drop'') (ustr ''select drop'') \<and>
   sanitize_sql {(ustr ''nyc_taxi'')} 100 (ustr ''select drop'') = Inl BannedKeyword"
proof -
  have h1: "(ustr ''drop'') \<in> set banned_words" by (simp add: banned_words_def)
  have h2: "contains_word (ustr ''drop'') (ustr ''select drop'')" by code_simp
  have g1: "begins_with_select (ustr ''select drop'')" by code_simp
  have g2: "ch CHR '';'' \<notin> set (rstrip_chars (ustr '';'') (strip (ustr ''select drop'')))" by code_simp
  have g3: "check_tables {(ustr ''nyc_taxi'')} (re_findall table_re (enforce_limit 100 (strip (ustr ''select drop'')))) = None"
    by code_simp
  from banned_keyword_rejected [OF h1 h2, of "{(ustr ''nyc_taxi'')}" 100] g1 g2 g3 h1 h2
  show ?thesis by simp
qed

theorem banned_keyword_counterexample:
  "contains_word (ustr ''drop'') (ustr ''DROP TABLE x'') \<and>
   sanitize_sql {(ustr ''nyc_taxi'')} 100 (ustr ''DROP TABLE x'') = Inl NotSelect \<and>
   sanitize_sql {(ustr ''nyc_taxi'')} 100 (ustr ''select drop'') = sanitize_sql {(ustr ''nyc_taxi'')} 100 (ustr ''select grant'')"
  by code_simp

section \<open>The statement gate and the row limit\<close>

text \<open>
  Claim C3 (as amended). A candidate that begins with \<^verbatim>\<open>SELECT\<close> and still contains a
  statement terminator once white space and all trailing terminators are stripped is
  rejected with "Multiple statements are not allowed."; so is \<^verbatim>\<open>SELECT 1; DROP TABLE x\<close>,
  for every allow-list and row limit, although it contains the banned word \<^verbatim>\<open>DROP\<close>: the
  statement gate comes before the banned-keyword scan.
\<close>

theorem multiple_statements_rejected:
  "(begins_with_select s \<and> ch CHR '';'' \<in> set (rstrip_chars (ustr '';'') (strip s))
      \<longrightarrow> sanitize_sql A n s = Inl MultipleStatements) \<and>
   contains_word (ustr ''drop'') (ustr ''SELECT 1; DROP TABLE x'') \<and>
   sanitize_sql A n (ustr ''SELECT 1; DROP TABLE x'') = Inl MultipleStatements"
proof -
  have g: "begins_with_select s \<and> ch CHR '';'' \<in> set (rstrip_chars (ustr '';'') (strip s))
      \<longrightarrow> sanitize_sql A n s = Inl MultipleStatements" for s
    unfolding sanitize_sql_steps [of A n s] by simp
  have "begins_with_select (ustr ''SELECT 1; DROP TABLE x'')" by code_simp
  moreover have "ch CHR '';'' \<in> set (rstrip_chars (ustr '';'') (strip (ustr ''SELECT 1; DROP TABLE x'')))"
    by code_simp
  ultimately have "sanitize_sql A n (ustr ''SELECT 1; DROP TABLE x'') = Inl MultipleStatements"
    using g by blast
  moreover have "contains_word (ustr ''drop'') (ustr ''SELECT 1; DROP TABLE x'')" by code_simp
  ultimately show ?thesis using g by blast
qed

theorem multiple_statements_rejected_witness:
  "begins_with_select (ustr ''select 1; select 2'') \<and>
   ch CHR '';'' \<in> set (rstrip_chars (ustr '';'') (strip (ustr ''select 1; select 2''))) \<and>
   sanitize_sql {(ustr ''nyc_taxi'')} 100 (ustr ''select 1; select 2'') = Inl MultipleStatements"
proof -
  have h1: "begins_with_select (ustr ''select 1; select 2'')" by code_simp
  have h2: "ch CHR '';'' \<in> set (rstrip_chars (ustr '';'') (strip (ustr ''select 1; select 2'')))" by code_simp
  from multiple_statements_rejected [of "(ustr ''select 1; select 2'')" "{(ustr ''nyc_taxi'')}" 100] h1 h2
  show ?thesis by blast
qed

theorem multiple_statements_counterexample:
  "ch CHR '';'' \<in> set (strip_one_terminator (strip (ustr ''SELECT 1;;''))) \<and>
   sanitize_sql {(ustr ''nyc_taxi'')} 100 (ustr ''SELECT 1;;'') = Inr (ustr ''SELECT 1 LIMIT 100'') \<and>
   ch CHR '';'' \<in> set (strip_one_terminator (strip (ustr ''DROP; x''))) \<and>
   sanitize_sql {(ustr ''nyc_taxi'')} 100 (ustr ''DROP; x'') = Inl NotSelect"
  by code_simp

text \<open>
  Claim C5 (as amended). When \<^verbatim>\<open>sanitize_sql\<close> accepts a candidate that has no whole word
  \<^verbatim>\<open>limit\<close> as \<^verbatim>\<open>re.IGNORECASE\<close> reads it, it returns the trimmed candidate without its
  trailing terminators, followed by \<^verbatim>\<open> LIMIT \<close> and the decimal text of \<^verbatim>\<open>MAX_ROWS\<close>; when the
  candidate has one, it returns the trimmed candidate unchanged. The whole word is read
  with each letter in lower or in upper case, and with U+0130 or U+0131 for an \<^verbatim>\<open>i\<close> as
  well; a candidate with \<^verbatim>\<open>limit\<close> in lower and upper case letters has one. With the
  allow-list \<^verbatim>\<open>{nyc_taxi}\<close> and \<^verbatim>\<open>MAX_ROWS = 100\<close>, \<^verbatim>\<open>SELECT * FROM nyc_taxi.yellow_curated\<close>
  becomes \<^verbatim>\<open>SELECT * FROM nyc_taxi.yellow_curated LIMIT 100\<close>.
\<close>

theorem limit_enforced:
  "(sanitize_sql A n s = Inr out \<longrightarrow>
      (if contains_word (ustr ''limit'') s then out = strip s
       else out = rstrip_chars (ustr '';'') (strip s) @ (ustr '' LIMIT '') @ int_str n)) \<and>
   (contains_word (ustr ''limit'') s \<longleftrightarrow>
      plain_contains_word (ustr ''limit'') (map fold_special s)) \<and>
   (plain_contains_word (ustr ''limit'') s \<longrightarrow> contains_word (ustr ''limit'') s) \<and>
   sanitize_sql {(ustr ''nyc_taxi'')} 100 (ustr ''SELECT * FROM nyc_taxi.yellow_curated'') =
     Inr (ustr ''SELECT * FROM nyc_taxi.yellow_curated LIMIT 100'')"
proof -
  have "out = enforce_limit n (strip s)" if "sanitize_sql A n s = Inr out"
    using that unfolding sanitize_sql_steps [of A n s]
    by (auto split: if_splits option.splits)
  moreover have e: "enforce_limit n (strip s) =
      (if contains_word (ustr ''limit'') s then strip s
       else rstrip_chars (ustr '';'') (strip s) @ (ustr '' LIMIT '') @ int_str n)"
    unfolding enforce_limit_steps contains_word_strip_iff [OF keyword_limit] rstrip_strip ..
  ultimately have 1: "sanitize_sql A n s = Inr out \<longrightarrow>
      (if contains_word (ustr ''limit'') s then out = strip s
       else out = rstrip_chars (ustr '';'') (strip s) @ (ustr '' LIMIT '') @ int_str n)"
    by (cases "contains_word (ustr ''limit'') s") (simp_all only: if_True if_False, blast+)
  have 2: "contains_word (ustr ''limit'') s \<longleftrightarrow>
      plain_contains_word (ustr ''limit'') (map fold_special s)"
    by (rule contains_word_fold [OF keyword_limit])
  have 3: "plain_contains_word (ustr ''limit'') s \<longrightarrow> contains_word (ustr ''limit'') s"
    using plain_contains_word_imp [OF keyword_limit] by blast
  have 4: "sanitize_sql {(ustr ''nyc_taxi'')} 100 (ustr ''SELECT * FROM nyc_taxi.yellow_curated'') =
     Inr (ustr ''SELECT * FROM nyc_taxi.yellow_curated LIMIT 100'')" by code_simp
  from 1 2 3 4 show ?thesis by (intro conjI)
qed

theorem limit_enforced_witness:
  "sanitize_sql {(ustr ''nyc_taxi'')} 7 (ustr ''select a from t;'') = Inr (ustr ''select a from t LIMIT 7'') \<and>
   \<not> contains_word (ustr ''limit'') (ustr ''select a from t;'') \<and>
   (ustr ''select a from t LIMIT 7'') = rstrip_chars (ustr '';'') (strip (ustr ''select a from t;'')) @ (ustr '' LIMIT '') @ int_str 7 \<and>
   sanitize_sql {(ustr ''nyc_taxi'')} 7 (ustr '' select a limit 3 '') = Inr (ustr ''select a limit 3'') \<and>
   plain_contains_word (ustr ''limit'') (ustr '' select a limit 3 '') \<and>
   contains_word (ustr ''limit'') (ustr '' select a limit 3 '') \<and> (ustr ''select a limit 3'') = strip (ustr '' select a limit 3 '')"
proof -
  have h1: "sanitize_sql {(ustr ''nyc_taxi'')} 7 (ustr ''select a from t;'') = Inr (ustr ''select a from t LIMIT 7'')"
    by code_simp
  have h2: "\<not> contains_word (ustr ''limit'') (ustr ''select a from t;'')" by code_simp
  have h3: "sanitize_sql {(ustr ''nyc_taxi'')} 7 (ustr '' select a limit 3 '') = Inr (ustr ''select a limit 3'')"
    by code_simp
  have h4: "plain_contains_word (ustr ''limit'') (ustr '' select a limit 3 '')" by code_simp
  note a = limit_enforced [of "{(ustr ''nyc_taxi'')}" 7 "(ustr ''select a from t;'')" "(ustr ''select a from t LIMIT 7'')"]
  note b = limit_enforced [of "{(ustr ''nyc_taxi'')}" 7 "(ustr '' select a limit 3 '')" "(ustr ''select a limit 3'')"]
  from b h4 have h5: "contains_word (ustr ''limit'') (ustr '' select a limit 3 '')" by blast
  from a h1 h2
  have 1: "(ustr ''select a from t LIMIT 7'') =
      rstrip_chars (ustr '';'') (strip (ustr ''select a from t;'')) @ (ustr '' LIMIT '') @ int_str 7"
    by (simp only: if_False simp_thms)
  from b h3 h5
  have 2: "(ustr ''select a limit 3'') = strip (ustr '' select a limit 3 '')"
    by (simp only: if_True simp_thms)
  from h1 h2 1 h3 h4 h5 2 show ?thesis by (intro conjI)
qed

theorem limit_enforced_counterexample:
  "\<not> plain_contains_word (ustr ''limit'') (ustr ''select 1 l'' @ 305 # ustr ''m'' @ 305 # ustr ''t 5'') \<and>
   sanitize_sql {ustr ''nyc_taxi''} 100 (ustr ''select 1 l'' @ 305 # ustr ''m'' @ 305 # ustr ''t 5'') =
     Inr (ustr ''select 1 l'' @ 305 # ustr ''m'' @ 305 # ustr ''t 5'')"
  by code_simp

section \<open>The text of the row limit\<close>

declare nat_str.simps [simp del]

lemma digit_digit_char: "d < 10 \<Longrightarrow> digit (digit_char d)"
  by (simp add: digit_def digit_char_def)

lemma nat_str_digits: "nat_str n \<noteq> [] \<and> (\<forall>c \<in> set (nat_str n). digit c)"
proof (induction n rule: nat_str.induct)
  case (1 n)
  show ?case
  proof (cases "n < 10")
    case True
    then show ?thesis by (subst (1 2) nat_str.simps) (simp add: digit_digit_char)
  next
    case False
    have "n mod 10 < 10" by simp
    then have "digit (digit_char (n mod 10))" by (rule digit_digit_char)
    with False 1 [OF False] show ?thesis by (subst (1 2) nat_str.simps) simp
  qed
qed

lemma int_str_chars:
  "int_str i \<noteq> []" "digit (last (int_str i))"
  "\<forall>c \<in> set (int_str i). digit c \<or> c = ch CHR ''-''"
  using nat_str_digits [of "nat i"] nat_str_digits [of "nat (- i)"]
  by (auto simp: int_str_def)

lemma digit_facts: "digit c \<Longrightarrow> \<not> is_space c" "digit c \<Longrightarrow> c \<noteq> ch CHR '';''"
proof -
  show "digit c \<Longrightarrow> \<not> is_space c" by (auto simp: digit_def is_space_def white_space_def)
  show "digit c \<Longrightarrow> c \<noteq> ch CHR '';''" by (auto simp: digit_def)
qed

lemma int_str_no_semicolon: "ch CHR '';'' \<notin> set (int_str i)"
  using int_str_chars(3) [of i] by (auto simp: digit_def)


section \<open>What an accepted statement looks like\<close>

lemma accepted_steps:
  assumes "sanitize_sql A n s = Inr out"
  shows "begins_with_select s" "ch CHR '';'' \<notin> set (rstrip_chars (ustr '';'') (strip s))"
    "out = enforce_limit n (strip s)" "check_tables A (re_findall table_re out) = None"
    "\<not> (\<exists>w \<in> set banned_words. contains_word w out)"
  using assms unfolding sanitize_sql_steps [of A n s]
  by (auto split: if_splits option.splits)

lemma lstrip_strip: "lstrip_by is_space (strip s) = strip s"
proof (cases "strip s = []")
  case True
  then show ?thesis by (simp add: lstrip_by_def)
next
  case False
  then have "\<not> is_space (hd (strip s))" unfolding strip_def by (rule strip_by_ends)
  with False show ?thesis unfolding lstrip_by_def by (rule dropWhile_id)
qed

lemma select_text:
  assumes "begins_with_select s"
  obtains m b where "strip s = m @ b" "list_all2 ci_match (ustr ''select'') m" "m \<noteq> []"
    "\<forall>c \<in> set m. letter c" "\<not> word_hd b"
proof -
  from assms have "begins_with_select (strip s)" by (simp add: begins_with_select_strip)
  then have o: "word_occurs (ustr ''select'') (rev []) (strip s)"
    by (simp add: begins_with_select_def lstrip_strip)
  show ?thesis
  proof (rule word_occurs_split [OF keyword_select o])
    fix m b
    assume "strip s = m @ b" "list_all2 ci_match (ustr ''select'') m" "m \<noteq> []"
      "\<forall>c \<in> set m. letter c" "\<not> word_hd (rev [])" "\<not> word_hd b"
    from this(1-4,6) show ?thesis by (rule that)
  qed
qed

lemma strip_id: "s \<noteq> [] \<Longrightarrow> \<not> is_space (hd s) \<Longrightarrow> \<not> is_space (last s) \<Longrightarrow> strip s = s"
  unfolding strip_def by (rule strip_by_idem)

lemma begins_with_select_intro:
  assumes "list_all2 ci_match (ustr ''select'') m" "m \<noteq> []" "\<forall>c \<in> set m. letter c"
    "\<not> word_hd b"
  shows "begins_with_select (m @ b)"
proof -
  have "\<not> is_space (hd (m @ b))" using assms(2,3) letter_not_space by (cases m) auto
  then have "dropWhile is_space (m @ b) = m @ b" using assms(2) by (intro dropWhile_id) simp_all
  moreover have "word_occurs (ustr ''select'') (rev []) (m @ b)"
    using assms(1,4) by (intro word_occurs_intro) (simp_all add: word_hd_def)
  ultimately show ?thesis by (simp add: begins_with_select_def lstrip_by_def)
qed

lemma limit_word: "list_all2 ci_match (ustr ''limit'') (ustr ''LIMIT'')"
  by (simp add: ci_match_def)

lemma contains_limit_appended: "contains_word (ustr ''limit'') (body @ (ustr '' LIMIT '') @ t)"
proof -
  have "word_occurs (ustr ''limit'') (rev (body @ (ustr '' ''))) ((ustr ''LIMIT'') @ (ch CHR '' '' # t))"
  proof (rule word_occurs_intro [OF limit_word])
    show "\<not> word_hd (rev (body @ (ustr '' '')))" using blank_facts(1) by (simp add: word_hd_def)
    show "\<not> word_hd (ch CHR '' '' # t)" using blank_facts(1) by (simp add: word_hd_def)
  qed
  moreover have "body @ (ustr '' LIMIT '') @ t = (body @ (ustr '' '')) @ ((ustr ''LIMIT'') @ (ch CHR '' '' # t))"
    by simp
  ultimately show ?thesis unfolding contains_word_iff by blast
qed

text \<open>The facts about an accepted statement that the two claims below rest on.\<close>

lemma accepted_facts:
  assumes "sanitize_sql A n s = Inr out"
  shows "strip out = out" "ch CHR '';'' \<notin> set (rstrip_chars (ustr '';'') out)"
    "begins_with_select out" "contains_word (ustr ''limit'') out"
proof -
  note st = accepted_steps [OF assms]
  have "strip out = out \<and> ch CHR '';'' \<notin> set (rstrip_chars (ustr '';'') out) \<and>
    begins_with_select out \<and> contains_word (ustr ''limit'') out"
  proof (cases "contains_word (ustr ''limit'') (strip s)")
    case True
    then have o: "out = strip s" using st(3) by (simp add: enforce_limit_steps)
    have "begins_with_select (strip s)" using st(1) by (simp add: begins_with_select_strip)
    with o True st(2) show ?thesis by (simp add: strip_strip)
  next
    case False
    show ?thesis
    proof (rule select_text [OF st(1)])
    fix m b
    assume q: "strip s = m @ b" and m: "list_all2 ci_match (ustr ''select'') m" and ne: "m \<noteq> []"
      and le: "\<forall>c \<in> set m. letter c" and nb: "\<not> word_hd b"
    let ?b' = "rstrip_by (\<lambda>c. c \<in> set (ustr '';'')) b"
    let ?t = "(ustr '' LIMIT '') @ int_str n"
    have "last m \<in> set m" using ne by simp
    then have "is_word (last m)" using le letter_is_word by blast
    then have "last m \<noteq> ch CHR '';''" using semicolon_not_word by auto
    then have "\<not> (last m \<in> set (ustr '';''))" by simp
    then have body: "rstrip_chars (ustr '';'') (strip s) = m @ ?b'"
      unfolding rstrip_chars_def q using ne by (intro rstrip_by_append)
    from False st(3) have "out = rstrip_chars (ustr '';'') (rstrip (strip s)) @ ?t"
      unfolding enforce_limit_steps by (simp only: if_False)
    then have o: "out = (m @ ?b') @ ?t" unfolding rstrip_strip body .
    have nz: "out \<noteq> []" using o ne by simp
    have hd: "\<not> is_space (hd out)" using o ne le letter_not_space by (cases m) auto
    have "last out = last (int_str n)" using o int_str_chars(1) [of n] by simp
    then have dl: "digit (last out)" using int_str_chars(2) [of n] by simp
    then have la: "\<not> is_space (last out)" by (rule digit_facts)
    have 1: "strip out = out" using nz hd la by (rule strip_id)
    have "\<not> (last out \<in> set (ustr '';''))" using digit_facts(2) [OF dl] by simp
    then have "rstrip_chars (ustr '';'') out = out"
      unfolding rstrip_chars_def by (intro rstrip_by_id) simp
    moreover have "ch CHR '';'' \<notin> set out"
      using st(2) int_str_no_semicolon [of n] unfolding o body by simp
    ultimately have 2: "ch CHR '';'' \<notin> set (rstrip_chars (ustr '';'') out)" by simp
    have "\<not> word_hd ?b'" using nb word_hd_rstrip [of "\<lambda>c. c \<in> set (ustr '';'')" b] in_semis_not_word
      by blast
    then have "\<not> word_hd (?b' @ ch CHR '' '' # ((ustr ''LIMIT '') @ int_str n))"
      using blank_facts(1) by (simp add: word_hd_append_space)
    then have "begins_with_select (m @ (?b' @ ch CHR '' '' # ((ustr ''LIMIT '') @ int_str n)))"
      using m ne le by (intro begins_with_select_intro)
    then have 3: "begins_with_select out" unfolding o by simp
    have 4: "contains_word (ustr ''limit'') out" unfolding o by (rule contains_limit_appended)
    from 1 2 3 4 show ?thesis by (intro conjI)
    qed
  qed
  then show "strip out = out" "ch CHR '';'' \<notin> set (rstrip_chars (ustr '';'') out)"
    "begins_with_select out" "contains_word (ustr ''limit'') out" by blast+
qed

text \<open>
  Claim C6 (as amended). In every statement \<^verbatim>\<open>sanitize_sql\<close> returns, the statement
  terminators form one run at the very end: the returned text has no white space at
  either end, and without its trailing terminators it contains no terminator. The run
  may hold more than one terminator.
\<close>

theorem terminators_trailing:
  "sanitize_sql A n s = Inr out \<longrightarrow>
     ch CHR '';'' \<notin> set (rstrip_chars (ustr '';'') out) \<and> strip out = out"
  using accepted_facts(1,2) [of A n s out] by blast

theorem terminators_trailing_witness:
  "sanitize_sql {(ustr ''nyc_taxi'')} 100 (ustr ''select 1 limit 5;'') = Inr (ustr ''select 1 limit 5;'') \<and>
   ch CHR '';'' \<notin> set (rstrip_chars (ustr '';'') (ustr ''select 1 limit 5;'')) \<and>
   strip (ustr ''select 1 limit 5;'') = (ustr ''select 1 limit 5;'')"
proof -
  have h: "sanitize_sql {(ustr ''nyc_taxi'')} 100 (ustr ''select 1 limit 5;'') = Inr (ustr ''select 1 limit 5;'')"
    by code_simp
  from terminators_trailing [of "{(ustr ''nyc_taxi'')}" 100 "(ustr ''select 1 limit 5;'')" "(ustr ''select 1 limit 5;'')"] h
  show ?thesis by blast
qed

theorem terminators_counterexample:
  "sanitize_sql {(ustr ''nyc_taxi'')} 100 (ustr ''SELECT 1 LIMIT 5;;'') = Inr (ustr ''SELECT 1 LIMIT 5;;'') \<and>
   length (filter (\<lambda>c. c = ch CHR '';'') (ustr ''SELECT 1 LIMIT 5;;'')) = 2"
  by code_simp

text \<open>
  Claim C10. \<^verbatim>\<open>sanitize_sql\<close> is idempotent on what it accepts: applied to a statement it
  returned, it returns that statement again.
\<close>

theorem sanitize_idempotent:
  "sanitize_sql A n s = Inr out \<longrightarrow> sanitize_sql A n out = Inr out"
proof
  assume a: "sanitize_sql A n s = Inr out"
  note st = accepted_steps [OF a] and f = accepted_facts [OF a]
  have "enforce_limit n out = out" using f(4) by (simp add: enforce_limit_steps)
  then show "sanitize_sql A n out = Inr out"
    unfolding sanitize_sql_steps [of A n out] f(1) using f(2,3) st(4,5) by simp
qed

theorem sanitize_idempotent_witness:
  "sanitize_sql {(ustr ''nyc_taxi'')} 100 (ustr ''select a from t;'') = Inr (ustr ''select a from t LIMIT 100'') \<and>
   sanitize_sql {(ustr ''nyc_taxi'')} 100 (ustr ''select a from t LIMIT 100'') = Inr (ustr ''select a from t LIMIT 100'')"
proof -
  have h: "sanitize_sql {(ustr ''nyc_taxi'')} 100 (ustr ''select a from t;'') = Inr (ustr ''select a from t LIMIT 100'')"
    by code_simp
  from sanitize_idempotent [of "{(ustr ''nyc_taxi'')}" 100 "(ustr ''select a from t;'')" "(ustr ''select a from t LIMIT 100'')"] h
  show ?thesis by blast
qed

section \<open>The table-reference scan\<close>

lemma set_tl_prefixes: "set (tl (prefixes xs)) = {m. m \<noteq> [] \<and> prefix m xs}"
proof (cases xs)
  case Nil
  then show ?thesis by auto
next
  case (Cons x ys)
  then show ?thesis by (auto simp: in_set_prefixes prefix_Cons)
qed

lemma plus_mem:
  "(m, g) \<in> set (rx_run (Plus p) bef aft) \<longleftrightarrow> g = None \<and> m \<noteq> [] \<and> prefix m (takeWhile p aft)"
  by (auto simp: set_tl_prefixes)

lemma group_plus_mem:
  "(m, g) \<in> set (rx_run (Group (Plus p)) bef aft) \<longleftrightarrow>
     g = Some m \<and> m \<noteq> [] \<and> prefix m (takeWhile p aft)"
  by (auto simp: set_tl_prefixes)

lemma prefix_takeWhile_all: "prefix m (takeWhile p xs) \<Longrightarrow> \<forall>c \<in> set m. p c"
  by (metis prefix_def set_takeWhileD set_append UnI1)

text \<open>What a match of the table pattern consumes: the keyword, white space, the token.\<close>

lemma table_re_mem:
  assumes "(m, g) \<in> set (rx_run table_re bef aft)"
  obtains k ws tok where "m = k @ ws @ tok" "g = Some tok"
    "list_all2 ci_match (ustr ''from'') k \<or> list_all2 ci_match (ustr ''join'') k"
    "ws \<noteq> []" "\<forall>c \<in> set ws. is_space c" "tok \<noteq> []" "\<forall>c \<in> set tok. table_char c"
proof -
  from assms obtain m0 g0 m2 g2 where
    w: "(m0, g0) \<in> set (rx_run WordB bef aft)" and
    r2: "(m2, g2) \<in> set (rx_run (Seq (Alt (Lit (ustr ''from'')) (Lit (ustr ''join'')))
        (Seq (Plus is_space) (Group (Plus table_char)))) (rev m0 @ bef) (drop (length m0) aft))"
    and m: "m = m0 @ m2" and g: "g = (case g2 of None \<Rightarrow> g0 | Some t \<Rightarrow> Some t)"
    unfolding table_re_def rx_run_Seq_mem [of m g WordB] by blast
  from w have m0: "m0 = []" by (simp split: if_splits)
  from r2 obtain k g3 m4 g4 b1 a1 where
    k: "(k, g3) \<in> set (rx_run (Alt (Lit (ustr ''from'')) (Lit (ustr ''join''))) b1 a1)" and
    r4: "(m4, g4) \<in> set (rx_run (Seq (Plus is_space) (Group (Plus table_char)))
        (rev k @ b1) (drop (length k) a1))"
    and m2: "m2 = k @ m4" and g2: "g2 = (case g4 of None \<Rightarrow> g3 | Some t \<Rightarrow> Some t)"
    unfolding rx_run_Seq_mem [of m2 g2 "Alt (Lit (ustr ''from'')) (Lit (ustr ''join''))"] by blast
  from k have "(lit_at (ustr ''from'') a1 \<and> k = take (length (ustr ''from'')) a1) \<or>
      (lit_at (ustr ''join'') a1 \<and> k = take (length (ustr ''join'')) a1)"
    unfolding alt_set lit_set by blast
  then have ci: "list_all2 ci_match (ustr ''from'') k \<or> list_all2 ci_match (ustr ''join'') k"
    unfolding lit_at_def by blast
  from r4 obtain ws g5 tok g6 b2 a2 where
    s: "(ws, g5) \<in> set (rx_run (Plus is_space) b2 a2)" and
    t: "(tok, g6) \<in> set (rx_run (Group (Plus table_char)) (rev ws @ b2) (drop (length ws) a2))"
    and m4: "m4 = ws @ tok" and g4: "g4 = (case g6 of None \<Rightarrow> g5 | Some t \<Rightarrow> Some t)"
    unfolding rx_run_Seq_mem [of m4 g4 "Plus is_space"] by blast
  from s have ws: "ws \<noteq> []" "prefix ws (takeWhile is_space a2)"
    unfolding plus_mem by blast+
  from ws(2) have sp: "\<forall>c \<in> set ws. is_space c" by (rule prefix_takeWhile_all)
  from t have tk: "g6 = Some tok" "tok \<noteq> []"
    "prefix tok (takeWhile table_char (drop (length ws) a2))"
    unfolding group_plus_mem by blast+
  from tk(3) have tc: "\<forall>c \<in> set tok. table_char c" by (rule prefix_takeWhile_all)
  have gg: "g = Some tok" using g g2 g4 tk(1) by simp
  have mm: "m = k @ ws @ tok" using m m0 m2 m4 by simp
  show ?thesis by (rule that [OF mm gg ci ws(1) sp tk(2) tc])
qed

text \<open>Where a captured token stands in the text.\<close>

lemma findall_table_places:
  assumes "t \<in> set (re_findall table_re q)"
  obtains x k ws rest where "q = x @ k @ ws @ t @ rest"
    "list_all2 ci_match (ustr ''from'') k \<or> list_all2 ci_match (ustr ''join'') k"
    "ws \<noteq> []" "\<forall>c \<in> set ws. is_space c" "t \<noteq> []" "\<forall>c \<in> set t. table_char c"
proof -
  from assms obtain x y m g where q: "q = x @ y"
    and r: "(m, g) \<in> set (rx_run table_re (rev x @ []) y)"
    and t: "t = group_text g"
    unfolding re_findall_def using findall_from_mem by blast
  from rx_run_prefix [OF r] obtain rest where y: "y = m @ rest" by (auto simp: prefix_def)
  from table_re_mem [OF r] obtain k ws tok where d: "m = k @ ws @ tok" "g = Some tok"
    "list_all2 ci_match (ustr ''from'') k \<or> list_all2 ci_match (ustr ''join'') k"
    "ws \<noteq> []" "\<forall>c \<in> set ws. is_space c" "tok \<noteq> []" "\<forall>c \<in> set tok. table_char c"
    by blast
  from t d(2) have tt: "t = tok" by (simp add: group_text_def)
  have "q = x @ k @ ws @ t @ rest" unfolding q y d(1) tt by simp
  then show ?thesis using d(3-7) unfolding tt [symmetric] by (rule that)
qed

lemma findall_table_tokens:
  assumes "t \<in> set (re_findall table_re q)"
  shows "t \<noteq> []" "\<forall>c \<in> set t. table_char c"
  using findall_table_places [OF assms] by blast+

text \<open>Stripping quotes and white space leaves a captured token as it is.\<close>

lemma strip_by_none:
  assumes "t \<noteq> []" "\<forall>c \<in> set t. \<not> p c"
  shows "strip_by p t = t"
  using assms by (intro strip_by_idem) simp_all

lemma unquote_token:
  assumes "t \<noteq> []" "\<forall>c \<in> set t. table_char c"
  shows "unquote t = t"
proof -
  have 1: "strip t = t" unfolding strip_def
    using assms space_not_table_char by (intro strip_by_none) auto
  have 2: "strip_chars [ch CHR 0x22] t = t" unfolding strip_chars_def
    using assms table_char_not_quote(1) by (intro strip_by_none) auto
  have 3: "strip_chars [ch CHR ''`''] t = t" unfolding strip_chars_def
    using assms table_char_not_quote(3) by (intro strip_by_none) auto
  have 4: "strip_chars [ch CHR 0x27] t = t" unfolding strip_chars_def
    using assms table_char_not_quote(2) by (intro strip_by_none) auto
  show ?thesis unfolding unquote_def 1 2 3 4 ..
qed

lemma check_tables_iff:
  "check_tables A ts =
     (if \<exists>t \<in> set ts. ch CHR ''.'' \<in> set (unquote t) \<and> schema_of (unquote t) \<notin> A
      then Some (SchemaNotAllowed A) else None)"
  by (induction ts) (auto simp: Let_def)

lemma check_tables_tokens:
  "check_tables A (re_findall table_re q) =
     (if \<exists>t \<in> set (re_findall table_re q). ch CHR ''.'' \<in> set t \<and> schema_of t \<notin> A
      then Some (SchemaNotAllowed A) else None)"
proof -
  have "unquote t = t" if "t \<in> set (re_findall table_re q)" for t
    using findall_table_tokens [OF that] by (rule unquote_token)
  then show ?thesis unfolding check_tables_iff by auto
qed




lemma quote_facts:
  assumes "q \<in> set [ch CHR 0x22, ch CHR ''`'', ch CHR 0x27]"
  shows "\<not> is_space q" "\<not> table_char q"
proof -
  have "\<not> is_space (ch CHR 0x22)" "\<not> is_space (ch CHR ''`'')" "\<not> is_space (ch CHR 0x27)"
    by (simp_all add: is_space_def white_space_def)
  with assms show "\<not> is_space q" by auto
  have "\<not> table_char (ch CHR 0x22)" "\<not> table_char (ch CHR ''`'')" "\<not> table_char (ch CHR 0x27)"
    using table_char_not_quote by blast+
  with assms show "\<not> table_char q" by auto
qed

lemma token_not_at_quote:
  assumes "\<forall>c \<in> set z. is_space c" "\<not> table_char q"
  shows "rx_run (Group (Plus table_char)) b (z @ q # rest) = []"
proof -
  have "takeWhile table_char (z @ q # rest) = []"
    using assms space_not_table_char by (cases z) auto
  then show ?thesis by simp
qed

lemma spaces_then_quote:
  assumes ws: "\<forall>c \<in> set ws. is_space c" and q: "\<not> is_space q" "\<not> table_char q"
  shows "rx_run (Seq (Plus is_space) (Group (Plus table_char))) b (ws @ q # rest) = []"
  unfolding rx_run_Seq_empty
proof (clarify)
  fix m g
  assume "(m, g) \<in> set (rx_run (Plus is_space) b (ws @ q # rest))"
  then have p: "prefix m (takeWhile is_space (ws @ q # rest))" unfolding plus_mem by blast
  have "takeWhile is_space (ws @ q # rest) = ws" using ws q(1) by (simp add: takeWhile_append2)
  with p obtain z where z: "ws = m @ z" by (auto simp: prefix_def)
  then have "\<forall>c \<in> set z. is_space c" using ws by simp
  from token_not_at_quote [OF this q(2)]
  have "rx_run (Group (Plus table_char)) (rev m @ b) (z @ q # rest) = []" .
  then show "rx_run (Group (Plus table_char)) (rev m @ b) (drop (length m) (ws @ q # rest)) = []"
    unfolding z by simp
qed

lemma keyword_then_quote:
  assumes k: "length k = 4" and ws: "\<forall>c \<in> set ws. is_space c"
    and q: "\<not> is_space q" "\<not> table_char q"
  shows "rx_run table_re bef (k @ ws @ q # rest) = []"
proof -
  let ?aft = "k @ ws @ q # rest"
  have a: "rx_run (Seq (Alt (Lit (ustr ''from'')) (Lit (ustr ''join'')))
             (Seq (Plus is_space) (Group (Plus table_char)))) b ?aft = []" for b
    unfolding rx_run_Seq_empty [of "Alt (Lit (ustr ''from'')) (Lit (ustr ''join''))"]
  proof (clarify)
    fix m g
    assume "(m, g) \<in> set (rx_run (Alt (Lit (ustr ''from'')) (Lit (ustr ''join''))) b ?aft)"
    then have "m = take (length (ustr ''from'')) ?aft \<or> m = take (length (ustr ''join'')) ?aft"
      unfolding alt_set lit_set by blast
    moreover have "length (ustr ''from'') = length k" "length (ustr ''join'') = length k" using k by simp_all
    ultimately have "m = take (length k) ?aft" by (simp only: simp_thms)
    then have m: "m = k" by simp
    show "rx_run (Seq (Plus is_space) (Group (Plus table_char))) (rev m @ b)
            (drop (length m) ?aft) = []"
      unfolding m using spaces_then_quote [OF ws q] by simp
  qed
  show ?thesis unfolding table_re_def rx_run_Seq_empty [of WordB]
  proof (clarify)
    fix m g
    assume "(m, g) \<in> set (rx_run WordB bef ?aft)"
    then have m: "m = []" by (simp split: if_splits)
    show "rx_run (Seq (Alt (Lit (ustr ''from'')) (Lit (ustr ''join'')))
             (Seq (Plus is_space) (Group (Plus table_char)))) (rev m @ bef)
             (drop (length m) ?aft) = []"
      unfolding m by (simp only: list.size drop_0 rev.simps append_Nil a)
  qed
qed

text \<open>
  Claim C9 (as amended). Every token the table-reference scan captures is a non-empty
  text of letters, digits, underscore and dot that stands in the statement directly after
  \<^verbatim>\<open>FROM\<close> or \<^verbatim>\<open>JOIN\<close> (as \<^verbatim>\<open>re.IGNORECASE\<close> reads them) and white space; it holds no quote
  character. Where \<^verbatim>\<open>FROM\<close> or \<^verbatim>\<open>JOIN\<close> is followed, after white space, by a double quote, a
  backtick or a single quote, the pattern has no match that starts at that keyword,
  whatever stands before and after, so the quoted name is not what the check sees: with
  the allow-list \<^verbatim>\<open>{nyc_taxi}\<close> the candidate \<^verbatim>\<open>SELECT * FROM "other_schema".t\<close> is accepted.
  The scan goes on inside the quotes, though, and a \<^verbatim>\<open>FROM\<close> or \<^verbatim>\<open>JOIN\<close> with white space and
  a name found there is captured as anywhere else: in \<^verbatim>\<open>select * from "join evil.t" limit 1\<close>
  the scan captures \<^verbatim>\<open>evil.t\<close>. A candidate is rejected for its schema only if the statement
  with its row limit holds \<^verbatim>\<open>FROM\<close> or \<^verbatim>\<open>JOIN\<close>, white space, and then such a token with a dot
  whose text before the first dot is not in the allow-list.
\<close>

theorem quoted_table_unchecked:
  "(\<forall>t \<in> set (re_findall table_re sql). \<exists>x k ws rest. sql = x @ k @ ws @ t @ rest \<and>
      (list_all2 ci_match (ustr ''from'') k \<or> list_all2 ci_match (ustr ''join'') k) \<and>
      ws \<noteq> [] \<and> list_all is_space ws \<and> t \<noteq> [] \<and>
      list_all (\<lambda>c. table_char c \<and> c \<notin> set [ch CHR 0x22, ch CHR ''`'', ch CHR 0x27]) t) \<and>
   ((list_all2 ci_match (ustr ''from'') k \<or> list_all2 ci_match (ustr ''join'') k) \<and>
      (\<forall>c \<in> set ws. is_space c) \<and> q \<in> set [ch CHR 0x22, ch CHR ''`'', ch CHR 0x27]
      \<longrightarrow> rx_run table_re bef (k @ ws @ q # rest) = []) \<and>
   (sanitize_sql A n s = Inl (SchemaNotAllowed A') \<longrightarrow>
      (\<exists>x k ws t rest. enforce_limit n (strip s) = x @ k @ ws @ t @ rest \<and>
         (list_all2 ci_match (ustr ''from'') k \<or> list_all2 ci_match (ustr ''join'') k) \<and>
         ws \<noteq> [] \<and> list_all is_space ws \<and> list_all table_char t \<and>
         ch CHR ''.'' \<in> set t \<and> schema_of t \<notin> A)) \<and>
   sanitize_sql {(ustr ''nyc_taxi'')} 100
      ((ustr ''SELECT * FROM '') @ [ch CHR 0x22] @ (ustr ''other_schema'') @ [ch CHR 0x22] @ (ustr ''.t'')) =
     Inr ((ustr ''SELECT * FROM '') @ [ch CHR 0x22] @ (ustr ''other_schema'') @ [ch CHR 0x22] @ (ustr ''.t LIMIT 100'')) \<and>
   re_findall table_re
      ((ustr ''select * from '') @ [ch CHR 0x22] @ (ustr ''join evil.t'') @ [ch CHR 0x22] @ (ustr '' limit 1'')) =
     [ustr ''evil.t'']"
proof -
  have 1: "\<forall>t \<in> set (re_findall table_re sql). \<exists>x k ws rest. sql = x @ k @ ws @ t @ rest \<and>
      (list_all2 ci_match (ustr ''from'') k \<or> list_all2 ci_match (ustr ''join'') k) \<and>
      ws \<noteq> [] \<and> list_all is_space ws \<and> t \<noteq> [] \<and>
      list_all (\<lambda>c. table_char c \<and> c \<notin> set [ch CHR 0x22, ch CHR ''`'', ch CHR 0x27]) t"
  proof
    fix t assume "t \<in> set (re_findall table_re sql)"
    from findall_table_places [OF this] obtain x k ws rest where d: "sql = x @ k @ ws @ t @ rest"
      "list_all2 ci_match (ustr ''from'') k \<or> list_all2 ci_match (ustr ''join'') k"
      "ws \<noteq> []" "\<forall>c \<in> set ws. is_space c" "t \<noteq> []" "\<forall>c \<in> set t. table_char c"
      by blast
    from d(4) have w: "list_all is_space ws" unfolding list_all_iff .
    have "\<forall>c \<in> set t. table_char c \<and> c \<notin> set [ch CHR 0x22, ch CHR ''`'', ch CHR 0x27]"
      using d(6) quote_facts(2) by blast
    then have "list_all (\<lambda>c. table_char c \<and> c \<notin> set [ch CHR 0x22, ch CHR ''`'', ch CHR 0x27]) t"
      unfolding list_all_iff .
    with d(1,2,3,5) w show "\<exists>x k ws rest. sql = x @ k @ ws @ t @ rest \<and>
      (list_all2 ci_match (ustr ''from'') k \<or> list_all2 ci_match (ustr ''join'') k) \<and>
      ws \<noteq> [] \<and> list_all is_space ws \<and> t \<noteq> [] \<and>
      list_all (\<lambda>c. table_char c \<and> c \<notin> set [ch CHR 0x22, ch CHR ''`'', ch CHR 0x27]) t"
      by blast
  qed
  have 2: "(list_all2 ci_match (ustr ''from'') k \<or> list_all2 ci_match (ustr ''join'') k) \<and>
      (\<forall>c \<in> set ws. is_space c) \<and> q \<in> set [ch CHR 0x22, ch CHR ''`'', ch CHR 0x27]
      \<longrightarrow> rx_run table_re bef (k @ ws @ q # rest) = []"
  proof
    assume a: "(list_all2 ci_match (ustr ''from'') k \<or> list_all2 ci_match (ustr ''join'') k) \<and>
      (\<forall>c \<in> set ws. is_space c) \<and> q \<in> set [ch CHR 0x22, ch CHR ''`'', ch CHR 0x27]"
    then have "length k = 4" by (auto dest: list_all2_lengthD)
    with a quote_facts [of q] show "rx_run table_re bef (k @ ws @ q # rest) = []"
      by (intro keyword_then_quote) blast+
  qed
  have 3: "sanitize_sql A n s = Inl (SchemaNotAllowed A') \<longrightarrow>
      (\<exists>x k ws t rest. enforce_limit n (strip s) = x @ k @ ws @ t @ rest \<and>
         (list_all2 ci_match (ustr ''from'') k \<or> list_all2 ci_match (ustr ''join'') k) \<and>
         ws \<noteq> [] \<and> list_all is_space ws \<and> list_all table_char t \<and>
         ch CHR ''.'' \<in> set t \<and> schema_of t \<notin> A)"
  proof
    assume "sanitize_sql A n s = Inl (SchemaNotAllowed A')"
    then have "\<exists>t \<in> set (re_findall table_re (enforce_limit n (strip s))).
        ch CHR ''.'' \<in> set t \<and> schema_of t \<notin> A"
      unfolding sanitize_sql_steps [of A n s] check_tables_tokens
      by (simp split: if_splits)
    then obtain t where t: "t \<in> set (re_findall table_re (enforce_limit n (strip s)))"
      "ch CHR ''.'' \<in> set t" "schema_of t \<notin> A" by blast
    from findall_table_places [OF t(1)] obtain x k ws rest where
      d: "enforce_limit n (strip s) = x @ k @ ws @ t @ rest"
      "list_all2 ci_match (ustr ''from'') k \<or> list_all2 ci_match (ustr ''join'') k"
      "ws \<noteq> []" "\<forall>c \<in> set ws. is_space c" "t \<noteq> []" "\<forall>c \<in> set t. table_char c"
      by blast
    from d(4) have w: "list_all is_space ws" unfolding list_all_iff .
    from d(6) have c: "list_all table_char t" unfolding list_all_iff .
    from d(1,2,3) w c t(2,3) show "\<exists>x k ws t rest. enforce_limit n (strip s) = x @ k @ ws @ t @ rest \<and>
         (list_all2 ci_match (ustr ''from'') k \<or> list_all2 ci_match (ustr ''join'') k) \<and>
         ws \<noteq> [] \<and> list_all is_space ws \<and> list_all table_char t \<and>
         ch CHR ''.'' \<in> set t \<and> schema_of t \<notin> A"
      by blast
  qed
  have 4: "sanitize_sql {(ustr ''nyc_taxi'')} 100
      ((ustr ''SELECT * FROM '') @ [ch CHR 0x22] @ (ustr ''other_schema'') @ [ch CHR 0x22] @ (ustr ''.t'')) =
     Inr ((ustr ''SELECT * FROM '') @ [ch CHR 0x22] @ (ustr ''other_schema'') @ [ch CHR 0x22] @ (ustr ''.t LIMIT 100''))"
    by code_simp
  have 5: "re_findall table_re
      ((ustr ''select * from '') @ [ch CHR 0x22] @ (ustr ''join evil.t'') @ [ch CHR 0x22] @ (ustr '' limit 1'')) =
     [ustr ''evil.t'']"
    by code_simp
  from 1 2 3 4 5 show ?thesis by (intro conjI)
qed

theorem quoted_table_unchecked_witness:
  "re_findall table_re (ustr ''select 1 from a.b join c'') = [(ustr ''a.b''), (ustr ''c'')] \<and>
   (\<exists>x k ws rest. ustr ''select 1 from a.b join c'' = x @ k @ ws @ ustr ''a.b'' @ rest \<and>
      (list_all2 ci_match (ustr ''from'') k \<or> list_all2 ci_match (ustr ''join'') k) \<and>
      ws \<noteq> [] \<and> list_all is_space ws \<and> ustr ''a.b'' \<noteq> [] \<and>
      list_all (\<lambda>c. table_char c \<and> c \<notin> set [ch CHR 0x22, ch CHR ''`'', ch CHR 0x27]) (ustr ''a.b'')) \<and>
   list_all2 ci_match (ustr ''from'') (ustr ''FROM'') \<and> list_all is_space (ustr ''  '') \<and>
   rx_run table_re [] ((ustr ''FROM'') @ (ustr ''  '') @ ch CHR ''`'' # (ustr ''x`.t'')) = [] \<and>
   sanitize_sql {ustr ''nyc_taxi''} 5 (ustr ''select 1 from a.b limit 1'') =
     Inl (SchemaNotAllowed {ustr ''nyc_taxi''}) \<and>
   (\<exists>x k ws t rest. enforce_limit 5 (strip (ustr ''select 1 from a.b limit 1'')) = x @ k @ ws @ t @ rest \<and>
      (list_all2 ci_match (ustr ''from'') k \<or> list_all2 ci_match (ustr ''join'') k) \<and>
      ws \<noteq> [] \<and> list_all is_space ws \<and> list_all table_char t \<and>
      ch CHR ''.'' \<in> set t \<and> schema_of t \<notin> {ustr ''nyc_taxi''})"
proof -
  have f: "re_findall table_re (ustr ''select 1 from a.b join c'') = [(ustr ''a.b''), (ustr ''c'')]"
    by code_simp
  have k: "list_all2 ci_match (ustr ''from'') (ustr ''FROM'')" by code_simp
  have w: "\<forall>c \<in> set (ustr ''  ''). is_space c" using blank_facts(2) by simp
  have q: "ch CHR ''`'' \<in> set [ch CHR 0x22, ch CHR ''`'', ch CHR 0x27]" by simp
  have r: "sanitize_sql {ustr ''nyc_taxi''} 5 (ustr ''select 1 from a.b limit 1'') =
     Inl (SchemaNotAllowed {ustr ''nyc_taxi''})"
    by code_simp
  note t = quoted_table_unchecked [of "(ustr ''select 1 from a.b join c'')" "(ustr ''FROM'')" "(ustr ''  '')"
      "ch CHR ''`''" "[]" "(ustr ''x`.t'')" "{ustr ''nyc_taxi''}" 5 "ustr ''select 1 from a.b limit 1''"
      "{ustr ''nyc_taxi''}"]
  have m: "ustr ''a.b'' \<in> set (re_findall table_re (ustr ''select 1 from a.b join c''))"
    unfolding f by simp
  from t have "\<forall>t \<in> set (re_findall table_re (ustr ''select 1 from a.b join c'')).
      \<exists>x k ws rest. ustr ''select 1 from a.b join c'' = x @ k @ ws @ t @ rest \<and>
      (list_all2 ci_match (ustr ''from'') k \<or> list_all2 ci_match (ustr ''join'') k) \<and>
      ws \<noteq> [] \<and> list_all is_space ws \<and> t \<noteq> [] \<and>
      list_all (\<lambda>c. table_char c \<and> c \<notin> set [ch CHR 0x22, ch CHR ''`'', ch CHR 0x27]) t"
    by (rule conjunct1)
  from this m have 1: "\<exists>x k ws rest. ustr ''select 1 from a.b join c'' = x @ k @ ws @ ustr ''a.b'' @ rest \<and>
      (list_all2 ci_match (ustr ''from'') k \<or> list_all2 ci_match (ustr ''join'') k) \<and>
      ws \<noteq> [] \<and> list_all is_space ws \<and> ustr ''a.b'' \<noteq> [] \<and>
      list_all (\<lambda>c. table_char c \<and> c \<notin> set [ch CHR 0x22, ch CHR ''`'', ch CHR 0x27]) (ustr ''a.b'')"
    by (rule bspec)
  from t have "(list_all2 ci_match (ustr ''from'') (ustr ''FROM'') \<or>
       list_all2 ci_match (ustr ''join'') (ustr ''FROM'')) \<and>
      (\<forall>c \<in> set (ustr ''  ''). is_space c) \<and>
      ch CHR ''`'' \<in> set [ch CHR 0x22, ch CHR ''`'', ch CHR 0x27]
      \<longrightarrow> rx_run table_re [] ((ustr ''FROM'') @ (ustr ''  '') @ ch CHR ''`'' # (ustr ''x`.t'')) = []"
    by (rule conjunct2 [THEN conjunct1])
  moreover from k w q have "(list_all2 ci_match (ustr ''from'') (ustr ''FROM'') \<or>
       list_all2 ci_match (ustr ''join'') (ustr ''FROM'')) \<and>
      (\<forall>c \<in> set (ustr ''  ''). is_space c) \<and>
      ch CHR ''`'' \<in> set [ch CHR 0x22, ch CHR ''`'', ch CHR 0x27]"
    by (intro conjI disjI1)
  ultimately have 2: "rx_run table_re [] ((ustr ''FROM'') @ (ustr ''  '') @ ch CHR ''`'' # (ustr ''x`.t'')) = []"
    by (rule mp)
  from t have "sanitize_sql {ustr ''nyc_taxi''} 5 (ustr ''select 1 from a.b limit 1'') =
       Inl (SchemaNotAllowed {ustr ''nyc_taxi''}) \<longrightarrow>
     (\<exists>x k ws t rest. enforce_limit 5 (strip (ustr ''select 1 from a.b limit 1'')) = x @ k @ ws @ t @ rest \<and>
      (list_all2 ci_match (ustr ''from'') k \<or> list_all2 ci_match (ustr ''join'') k) \<and>
      ws \<noteq> [] \<and> list_all is_space ws \<and> list_all table_char t \<and>
      ch CHR ''.'' \<in> set t \<and> schema_of t \<notin> {ustr ''nyc_taxi''})"
    by (rule conjunct2 [THEN conjunct2, THEN conjunct1])
  from this r have 3: "\<exists>x k ws t rest. enforce_limit 5 (strip (ustr ''select 1 from a.b limit 1'')) = x @ k @ ws @ t @ rest \<and>
      (list_all2 ci_match (ustr ''from'') k \<or> list_all2 ci_match (ustr ''join'') k) \<and>
      ws \<noteq> [] \<and> list_all is_space ws \<and> list_all table_char t \<and>
      ch CHR ''.'' \<in> set t \<and> schema_of t \<notin> {ustr ''nyc_taxi''}"
    by (rule mp)
  from w have 4: "list_all is_space (ustr ''  '')" unfolding list_all_iff .
  from f 1 k 4 2 r 3 show ?thesis by (intro conjI)
qed

theorem quoted_table_counterexample:
  "sanitize_sql {ustr ''nyc_taxi''} 100
      ((ustr ''select * from '') @ [ch CHR 0x22] @ (ustr ''join evil.t'') @ [ch CHR 0x22] @ (ustr '' limit 1'')) =
     Inl (SchemaNotAllowed {ustr ''nyc_taxi''})"
  by code_simp

section \<open>The retry loop\<close>

declare retry_loop.simps [simp del]


lemma throttled_iff: "throttled x \<longleftrightarrow> (\<exists>c. x = Inl (ClientError c) \<and> throttling c)"
  by (auto simp: throttled_def split: sum.splits exn.splits)

lemma retry_step:
  assumes "throttled (svc (calls w))" "int attempt < M - 1"
  shows "retry_loop svc rnd M attempt w =
     retry_loop svc rnd M (attempt + 1)
       (w\<lparr>calls := calls w + 1, draws := draws w + 1,
          slept := slept w @ [backoff attempt (rnd (draws w))]\<rparr>)"
proof -
  from assms(1) obtain c where "svc (calls w) = Inl (ClientError c)" "throttling c"
    unfolding throttled_iff by blast
  with assms(2) show ?thesis by (subst retry_loop.simps) (simp add: Let_def)
qed

lemma retry_stop:
  assumes "\<not> throttled (svc (calls w)) \<or> \<not> int attempt < M - 1"
  shows "retry_loop svc rnd M attempt w = (svc (calls w), w\<lparr>calls := calls w + 1\<rparr>)"
  using assms
  by (subst retry_loop.simps) (auto simp: Let_def throttled_def split: sum.splits exn.splits)

text \<open>After \<open>k\<close> throttling errors in a row, each within the cap, the loop stands \<open>k\<close>
  attempts further, with \<open>k\<close> more calls made and \<open>k\<close> more sleeps taken.\<close>

lemma retry_throttled:
  assumes "\<forall>i<k. throttled (svc (calls w + i))" "int (attempt + k) \<le> M - 1"
  shows "retry_loop svc rnd M attempt w =
     retry_loop svc rnd M (attempt + k)
       (w\<lparr>calls := calls w + k, draws := draws w + k,
          slept := slept w @ map (\<lambda>i. backoff (attempt + i) (rnd (draws w + i))) [0..<k]\<rparr>)"
  using assms
proof (induction k arbitrary: attempt w)
  case 0
  then show ?case by simp
next
  case (Suc k)
  let ?w = "w\<lparr>calls := calls w + 1, draws := draws w + 1,
          slept := slept w @ [backoff attempt (rnd (draws w))]\<rparr>"
  have t: "throttled (svc (calls w))" using Suc.prems(1) by (metis add.right_neutral zero_less_Suc)
  have a: "int attempt < M - 1" using Suc.prems(2) by simp
  have "\<forall>i<k. throttled (svc (calls ?w + i))"
  proof (intro allI impI)
    fix i assume "i < k"
    then have "Suc i < Suc k" by simp
    with Suc.prems(1) have "throttled (svc (calls w + Suc i))" by blast
    then show "throttled (svc (calls ?w + i))" by simp
  qed
  moreover have "int (attempt + 1 + k) \<le> M - 1" using Suc.prems(2) by simp
  ultimately have "retry_loop svc rnd M (attempt + 1) ?w =
     retry_loop svc rnd M (attempt + 1 + k)
       (?w\<lparr>calls := calls ?w + k, draws := draws ?w + k,
          slept := slept ?w @ map (\<lambda>i. backoff (attempt + 1 + i) (rnd (draws ?w + i))) [0..<k]\<rparr>)"
    by (rule Suc.IH)
  moreover have "map (\<lambda>i. backoff (attempt + i) (rnd (draws w + i))) [0..<Suc k] =
      backoff attempt (rnd (draws w)) # map (\<lambda>i. backoff (attempt + 1 + i) (rnd (draws w + 1 + i))) [0..<k]"
    by (simp add: map_upt_Suc del: upt_Suc)
  moreover note retry_step [where svc = svc and w = w and rnd = rnd and attempt = attempt
      and M = M, OF t a]
  ultimately show ?case by (simp del: upt_Suc)
qed

lemma backoff_ms:
  "1000 * backoff i u = min 8000 (500 * 2 ^ i) + 1000 * uniform 0 (3 / 10) u"
  by (simp add: backoff_def min_def algebra_simps)

lemma uniform_range:
  "0 \<le> u \<Longrightarrow> u < 1 \<Longrightarrow> 0 \<le> 1000 * uniform 0 (3 / 10) u \<and> 1000 * uniform 0 (3 / 10) u < 300"
  by (simp add: uniform_def)

lemma retry_success:
  assumes "\<forall>i<k. throttled (svc i)" "svc k = Inr r" "int k < M"
  shows "invoke_bedrock_with_retry svc rnd M =
     (Inr r, \<lparr>calls = k + 1, draws = k, slept = map (\<lambda>i. backoff i (rnd i)) [0..<k]\<rparr>)"
proof -
  have "retry_loop svc rnd M 0 world0 =
     retry_loop svc rnd M (0 + k)
       (world0\<lparr>calls := calls world0 + k, draws := draws world0 + k,
          slept := slept world0 @ map (\<lambda>i. backoff (0 + i) (rnd (draws world0 + i))) [0..<k]\<rparr>)"
    using assms(1,3) by (intro retry_throttled) (simp_all add: world0_def)
  also have "\<dots> = retry_loop svc rnd M k
       \<lparr>calls = k, draws = k, slept = map (\<lambda>i. backoff i (rnd i)) [0..<k]\<rparr>"
    by (simp add: world0_def)
  also have "\<dots> = (Inr r, \<lparr>calls = k + 1, draws = k, slept = map (\<lambda>i. backoff i (rnd i)) [0..<k]\<rparr>)"
    using assms(2) by (subst retry_stop) (simp_all add: throttled_def)
  finally show ?thesis by (simp add: invoke_bedrock_with_retry_def)
qed

lemma retry_exhausted:
  assumes "\<forall>i\<le>k. throttled (svc i)" "M = int k + 1"
  shows "invoke_bedrock_with_retry svc rnd M =
     (svc k, \<lparr>calls = k + 1, draws = k, slept = map (\<lambda>i. backoff i (rnd i)) [0..<k]\<rparr>)"
proof -
  have "retry_loop svc rnd M 0 world0 =
     retry_loop svc rnd M (0 + k)
       (world0\<lparr>calls := calls world0 + k, draws := draws world0 + k,
          slept := slept world0 @ map (\<lambda>i. backoff (0 + i) (rnd (draws world0 + i))) [0..<k]\<rparr>)"
    using assms by (intro retry_throttled) (simp_all add: world0_def)
  also have "\<dots> = retry_loop svc rnd M k
       \<lparr>calls = k, draws = k, slept = map (\<lambda>i. backoff i (rnd i)) [0..<k]\<rparr>"
    by (simp add: world0_def)
  also have "\<dots> = (svc k, \<lparr>calls = k + 1, draws = k, slept = map (\<lambda>i. backoff i (rnd i)) [0..<k]\<rparr>)"
    using assms(2) by (subst retry_stop) simp_all
  finally show ?thesis by (simp add: invoke_bedrock_with_retry_def)
qed


text \<open>
  Claim C7. The loop retries after a \<^verbatim>\<open>ClientError\<close> whose code is \<^verbatim>\<open>ThrottlingException\<close> or
  \<^verbatim>\<open>TooManyRequestsException\<close> and after nothing else: at any attempt, an outcome of another
  kind ends the loop with that outcome, one more call and no sleep. After \<open>N - 1\<close>
  throttling errors and then a reply, with \<open>N\<close> at most \<^verbatim>\<open>max_attempts\<close>, it returns the reply
  after \<open>N\<close> calls and \<open>N - 1\<close> sleeps, the \<open>i\<close>-th of \<^verbatim>\<open>min(8.0, 2 ** i * 0.5)\<close> seconds plus
  the \<open>i\<close>-th draw of \<^verbatim>\<open>random.uniform(0, 0.3)\<close>; in milliseconds that is
  \<open>min 8000 (500 * 2 ^ i)\<close> plus a jitter below 300. When every attempt is throttled it
  raises the throttling error of the last attempt after exactly \<^verbatim>\<open>max_attempts\<close> calls. The
  default of \<^verbatim>\<open>max_attempts\<close> is 6.
\<close>

theorem retry_policy:
  "(\<not> throttled (svc (calls w)) \<longrightarrow>
      retry_loop svc rnd M attempt w = (svc (calls w), w\<lparr>calls := calls w + 1\<rparr>)) \<and>
   (1 \<le> N \<and> int N \<le> M \<and> (\<forall>i<N - 1. throttled (svc i)) \<and> svc (N - 1) = Inr r \<longrightarrow>
      invoke_bedrock_with_retry svc rnd M =
        (Inr r, \<lparr>calls = N, draws = N - 1, slept = map (\<lambda>i. backoff i (rnd i)) [0..<N - 1]\<rparr>)) \<and>
   (1 \<le> M \<and> (\<forall>i<nat M. throttled (svc i)) \<longrightarrow>
      throttled (svc (nat M - 1)) \<and>
      invoke_bedrock_with_retry svc rnd M =
        (svc (nat M - 1),
         \<lparr>calls = nat M, draws = nat M - 1, slept = map (\<lambda>i. backoff i (rnd i)) [0..<nat M - 1]\<rparr>)) \<and>
   1000 * backoff i u = min 8000 (500 * 2 ^ i) + 1000 * uniform 0 (3 / 10) u \<and>
   (0 \<le> u \<and> u < 1 \<longrightarrow>
      0 \<le> 1000 * uniform 0 (3 / 10) u \<and> 1000 * uniform 0 (3 / 10) u < 300) \<and>
   default_max_attempts = 6"
proof (intro conjI impI)
  assume "\<not> throttled (svc (calls w))"
  then show "retry_loop svc rnd M attempt w = (svc (calls w), w\<lparr>calls := calls w + 1\<rparr>)"
    by (intro retry_stop) simp
next
  assume a: "1 \<le> N \<and> int N \<le> M \<and> (\<forall>i<N - 1. throttled (svc i)) \<and> svc (N - 1) = Inr r"
  then have "int (N - 1) < M" by auto
  with a have "invoke_bedrock_with_retry svc rnd M =
     (Inr r, \<lparr>calls = N - 1 + 1, draws = N - 1,
        slept = map (\<lambda>i. backoff i (rnd i)) [0..<N - 1]\<rparr>)"
    by (intro retry_success) blast+
  with a show "invoke_bedrock_with_retry svc rnd M =
        (Inr r, \<lparr>calls = N, draws = N - 1, slept = map (\<lambda>i. backoff i (rnd i)) [0..<N - 1]\<rparr>)"
    by simp
next
  assume a: "1 \<le> M \<and> (\<forall>i<nat M. throttled (svc i))"
  then show "throttled (svc (nat M - 1))" by simp
  from a have "\<forall>i \<le> nat M - 1. throttled (svc i)" "M = int (nat M - 1) + 1" by auto
  then have "invoke_bedrock_with_retry svc rnd M =
     (svc (nat M - 1), \<lparr>calls = nat M - 1 + 1, draws = nat M - 1,
        slept = map (\<lambda>i. backoff i (rnd i)) [0..<nat M - 1]\<rparr>)"
    by (rule retry_exhausted)
  with a show "invoke_bedrock_with_retry svc rnd M =
        (svc (nat M - 1),
         \<lparr>calls = nat M, draws = nat M - 1, slept = map (\<lambda>i. backoff i (rnd i)) [0..<nat M - 1]\<rparr>)"
    by simp
next
  show "1000 * backoff i u = min 8000 (500 * 2 ^ i) + 1000 * uniform 0 (3 / 10) u"
    by (rule backoff_ms)
next
  assume "0 \<le> u \<and> u < 1"
  then show "0 \<le> 1000 * uniform 0 (3 / 10) u" "1000 * uniform 0 (3 / 10) u < 300"
    using uniform_range [of u] by blast+
next
  show "default_max_attempts = 6" by (rule default_max_attempts_def)
qed

theorem retry_policy_witness:
  "invoke_bedrock_with_retry
      (\<lambda>k. if k < 2 then Inl (ClientError ''ThrottlingException'') else Inr ''ok'')
      (\<lambda>k. 1 / 2) 6 =
     (Inr ''ok'', \<lparr>calls = 3, draws = 2, slept = [13 / 20, 23 / 20]\<rparr>) \<and>
   invoke_bedrock_with_retry
      (\<lambda>k. Inl (ClientError ''TooManyRequestsException'') :: exn + string) (\<lambda>k. 0) 6 =
     (Inl (ClientError ''TooManyRequestsException''),
      \<lparr>calls = 6, draws = 5, slept = [1 / 2, 1, 2, 4, 8]\<rparr>) \<and>
   retry_loop (\<lambda>k. Inl (ClientError ''ValidationException'') :: exn + string) (\<lambda>k. 0) 6 0 world0 =
     (Inl (ClientError ''ValidationException''), \<lparr>calls = 1, draws = 0, slept = []\<rparr>) \<and>
   0 \<le> 1000 * uniform 0 (3 / 10) (1 / 2) \<and> 1000 * uniform 0 (3 / 10) (1 / 2) < 300"
proof -
  let ?svc = "\<lambda>k::nat. if k < 2 then Inl (ClientError ''ThrottlingException'') else Inr ''ok''"
  let ?all = "\<lambda>k::nat. Inl (ClientError ''TooManyRequestsException'') :: exn + string"
  let ?bad = "\<lambda>k::nat. Inl (ClientError ''ValidationException'') :: exn + string"
  have l: "[0..<2] = [0, Suc 0]" "[0..<5] = [0, 1, 2, 3, 4]" by (simp_all add: upt_rec)
  have h1: "(1::nat) \<le> 3 \<and> int 3 \<le> 6 \<and> (\<forall>i<3 - 1. throttled (?svc i)) \<and> ?svc (3 - 1) = Inr ''ok''"
    by (simp add: throttled_def throttling_def)
  have h2: "(1::int) \<le> 6 \<and> (\<forall>i<nat 6. throttled (?all i))"
    by (simp add: throttled_def throttling_def)
  have h3: "\<not> throttled (?bad (calls world0))"
    by (simp add: throttled_def throttling_def)
  have h4: "(0::real) \<le> 1 / 2 \<and> (1 / 2 :: real) < 1" by simp
  note t1 = retry_policy [where svc = ?svc and N = 3 and M = 6 and r = "''ok''" and rnd = "\<lambda>k. 1 / 2"]
  note t2 = retry_policy [where svc = ?all and M = 6 and rnd = "\<lambda>k. 0"]
  note t3 = retry_policy [where svc = ?bad and M = 6 and rnd = "\<lambda>k. 0" and w = world0 and attempt = 0
      and u = "1 / 2"]
  from t1 [THEN conjunct2, THEN conjunct1] h1
  have "invoke_bedrock_with_retry ?svc (\<lambda>k. 1 / 2) 6 =
     (Inr ''ok'', \<lparr>calls = 3, draws = 3 - 1, slept = map (\<lambda>i. backoff i (1 / 2)) [0..<3 - 1]\<rparr>)"
    by (rule mp)
  then have 1: "invoke_bedrock_with_retry ?svc (\<lambda>k. 1 / 2) 6 =
     (Inr ''ok'', \<lparr>calls = 3, draws = 2, slept = [13 / 20, 23 / 20]\<rparr>)"
    by (simp add: l backoff_def uniform_def)
  from t2 [THEN conjunct2, THEN conjunct2, THEN conjunct1] h2
  have "throttled (?all (nat 6 - 1)) \<and> invoke_bedrock_with_retry ?all (\<lambda>k. 0) 6 =
     (?all (nat 6 - 1), \<lparr>calls = nat 6, draws = nat 6 - 1,
        slept = map (\<lambda>i. backoff i 0) [0..<nat 6 - 1]\<rparr>)"
    by (rule mp)
  then have 2: "invoke_bedrock_with_retry ?all (\<lambda>k. 0) 6 =
     (Inl (ClientError ''TooManyRequestsException''),
      \<lparr>calls = 6, draws = 5, slept = [1 / 2, 1, 2, 4, 8]\<rparr>)"
    by (simp add: l backoff_def uniform_def)
  from t3 [THEN conjunct1] h3
  have "retry_loop ?bad (\<lambda>k. 0) 6 0 world0 = (?bad (calls world0), world0\<lparr>calls := calls world0 + 1\<rparr>)"
    by (rule mp)
  then have 3: "retry_loop ?bad (\<lambda>k. 0) 6 0 world0 =
     (Inl (ClientError ''ValidationException''), \<lparr>calls = 1, draws = 0, slept = []\<rparr>)"
    by (simp add: world0_def)
  from t3 [THEN conjunct2, THEN conjunct2, THEN conjunct2, THEN conjunct2, THEN conjunct1] h4
  have 4: "0 \<le> 1000 * uniform 0 (3 / 10) (1 / 2) \<and> 1000 * uniform 0 (3 / 10) (1 / 2) < 300"
    by (rule mp)
  from 1 2 3 4 show ?thesis by (intro conjI) blast+
qed

section \<open>The result pages\<close>

lemma add_rows_bound:
  "int (length rows) < M \<Longrightarrow> int (length (add_rows M p rows)) \<le> M"
proof (induction p arbitrary: rows)
  case Nil
  then show ?case by simp
next
  case (Cons r rs)
  show ?case
  proof (cases "M \<le> int (length (rows @ [r]))")
    case True
    with Cons.prems show ?thesis by (simp add: Let_def)
  next
    case False
    then have "int (length (rows @ [r])) < M" by simp
    from Cons.IH [OF this] False show ?thesis by (simp add: Let_def)
  qed
qed

text \<open>The pages after the first never take the rows beyond the cap: the result has at
  most \<^verbatim>\<open>MAX_ROWS\<close> rows, or the rows the first page left.\<close>

lemma fetch_more_bound:
  "int (length (fetch_more M ps rows)) \<le> max M (int (length rows))"
proof (induction ps arbitrary: rows)
  case Nil
  then show ?case by simp
next
  case (Cons p ps)
  show ?case
  proof (cases "int (length rows) < M")
    case True
    from add_rows_bound [OF True] have "int (length (add_rows M p rows)) \<le> M" .
    with Cons.IH [of "add_rows M p rows"] True show ?thesis by simp
  next
    case False
    then show ?thesis by simp
  qed
qed

lemma wait_loop_succeeded:
  "wait_loop (\<lambda>k. (''SUCCEEDED'', reason)) 0 = Some (''SUCCEEDED'', reason)"
  by (subst wait_loop.simps) simp

text \<open>
  Claim C8. After a \<^verbatim>\<open>SUCCEEDED\<close> poll \<^verbatim>\<open>run_athena\<close> takes the first row of the first page as
  the header and leaves it out of the data rows, but it puts every other row of the first
  page among the data rows without looking at \<^verbatim>\<open>MAX_ROWS\<close>: with \<^verbatim>\<open>MAX_ROWS = 2\<close> and a single
  page of a header and three rows it returns three data rows.
\<close>

theorem first_page_beyond_limit:
  "run_athena 2 (\<lambda>k. (''SUCCEEDED'', []))
      [[Some ''h''], [Some ''a''], [Some ''b''], [Some ''c'']] [] =
     Some (Inr ([''h''], [[Some ''a''], [Some ''b''], [Some ''c'']])) \<and>
   \<not> int (length [[Some ''a''], [Some ''b''], [Some ''c'']]) \<le> 2"
  by (simp add: run_athena_def wait_loop_succeeded fetch_results_def)

end
